theory Spec2Isabelle
  imports Complex_Main
begin

section \<open>Rotated-rectangle annotation: the geometry and the per-image loop\<close>

text \<open>
  The program (\<^verbatim>\<open>annotation.py\<close>) lets a user click three points on an image, derives a
  rotated rectangle from them and appends its four corners to a text file.

  Numbers are modelled as \<^typ>\<open>real\<close>: the arithmetic of the source (\<^verbatim>\<open>+\<close>, \<^verbatim>\<open>*\<close>,
  \<^verbatim>\<open>**\<close>, \<^verbatim>\<open>np.sqrt\<close>, \<^verbatim>\<open>np.cos\<close>, \<^verbatim>\<open>np.sin\<close>, \<^verbatim>\<open>np.arctan2\<close>, \<^verbatim>\<open>np.pi\<close>) is read as
  exact real arithmetic in the first model; a second model, further down, rounds every
  operation to 64-bit floating point. A clicked point is a pair, as \<^verbatim>\<open>plt.ginput\<close> returns it; a one-dimensional
  numpy array is the list of its entries, a two-dimensional one the list of its rows.
\<close>

subsection \<open>Arrays\<close>

type_synonym point = "real \<times> real"
type_synonym array1 = "real list"
type_synonym array2 = "real list list"

text \<open>\<^verbatim>\<open>a + b\<close> on two arrays of one shape: entry by entry.\<close>

definition array_add :: "array1 \<Rightarrow> array1 \<Rightarrow> array1" where
  "array_add a b = map2 (+) a b"

text \<open>\<^verbatim>\<open>k * a\<close> for a scalar \<open>k\<close>: every entry is multiplied.\<close>

definition array_scale :: "real \<Rightarrow> array1 \<Rightarrow> array1" where
  "array_scale k a = map ((*) k) a"

text \<open>
  \<^verbatim>\<open>np.column_stack\<close> on one-dimensional arrays of one length: the arrays become the
  columns, so row \<open>i\<close> holds entry \<open>i\<close> of each of them.
\<close>

definition column_stack :: "array1 list \<Rightarrow> array2" where
  "column_stack cols = map (\<lambda>i. map (\<lambda>c. c ! i) cols) [0..<length (hd cols)]"

text \<open>\<^verbatim>\<open>np.deg2rad\<close>.\<close>

definition deg2rad :: "real \<Rightarrow> real" where
  "deg2rad d = d * pi / 180"

text \<open>
  \<^verbatim>\<open>np.arctan2(y, x)\<close>: the angle in \<open>(-pi, pi]\<close> of the direction \<open>(x, y)\<close>, and \<open>0\<close>
  at the origin.
\<close>

definition arctan2 :: "real \<Rightarrow> real \<Rightarrow> real" where
  "arctan2 y x =
     (if 0 < x then arctan (y / x)
      else if x < 0 then (if 0 \<le> y then arctan (y / x) + pi else arctan (y / x) - pi)
      else if 0 < y then pi / 2
      else if y < 0 then - (pi / 2)
      else 0)"

subsection \<open>The geometry: \<^verbatim>\<open>rectangle_w_angle\<close>\<close>

definition rectangle_w_angle :: "real \<Rightarrow> real \<Rightarrow> real \<Rightarrow> real \<Rightarrow> real \<Rightarrow> array2" where
  "rectangle_w_angle x y width height angle_deg =
     (let theta = deg2rad angle_deg;
          v1 = [x, y];
          v2 = array_add v1 [width * cos theta, width * sin theta];
          perp = [- sin theta, cos theta];
          v4 = array_add v1 (array_scale height perp);
          v3 = array_add v2 (array_scale height perp);
          vertices = column_stack [v1, v2, v3, v4]
      in vertices)"

text \<open>
  Column \<open>i\<close> of a \<open>2 \<times> 4\<close> array of vertices, read as the loop of \<^verbatim>\<open>main\<close> reads it:
  \<^verbatim>\<open>vertices[0, i]\<close> and \<^verbatim>\<open>vertices[1, i]\<close>.
\<close>

definition corner :: "array2 \<Rightarrow> nat \<Rightarrow> point" where
  "corner vertices i = (vertices ! 0 ! i, vertices ! 1 ! i)"

subsection \<open>One capture: \<^verbatim>\<open>annotate_image\<close>\<close>

text \<open>
  \<^verbatim>\<open>plt.ginput(3, timeout=-1)\<close> blocks until it has three clicks or is stopped; the list
  it returns is the argument \<open>pts\<close> here. With fewer than three points the function
  returns \<^verbatim>\<open>None\<close>. Unpacking into three pairs raises \<^verbatim>\<open>ValueError\<close> on a longer
  list. The calls that only draw (\<^verbatim>\<open>ax.plot\<close>, \<^verbatim>\<open>plt.draw\<close>) leave no trace in the
  result and are left out.
\<close>

datatype error = ValueError

definition annotate_image :: "point list \<Rightarrow> error + array2 option" where
  "annotate_image pts =
     (if length pts < 3 then Inr None
      else (case pts of
              [(x, y), (x2, y2), (x3, y3)] \<Rightarrow>
                (let width = sqrt ((x - x2)\<^sup>2 + (y - y2)\<^sup>2);
                     angle = arctan2 (y2 - y) (x2 - x) * 180 / pi;
                     height = sqrt ((x3 - x2)\<^sup>2 + (y3 - y2)\<^sup>2);
                     vertices = rectangle_w_angle x y width height angle
                 in Inr (Some vertices))
            | _ \<Rightarrow> Inl ValueError))"

subsection \<open>One image: the loop of \<^verbatim>\<open>main\<close>\<close>

text \<open>
  A line \<^verbatim>\<open>"{x} {y}\n"\<close> of the annotation file is kept as the two numbers it prints;
  how Python renders a number as text is not modelled. The file is the list of the lines
  written so far, with a flag for \<^verbatim>\<open>close\<close>.
\<close>

datatype line = Line real real

record anno_file =
  contents :: "line list"
  closed :: bool

text \<open>\<^verbatim>\<open>open(anno_filename, 'w')\<close>: whatever the file held before is dropped.\<close>

definition open_w :: "line list \<Rightarrow> anno_file" where
  "open_w previous = \<lparr>contents = [], closed = False\<rparr>"

definition file_write :: "anno_file \<Rightarrow> line \<Rightarrow> anno_file" where
  "file_write f l = f\<lparr>contents := contents f @ [l]\<rparr>"

definition file_close :: "anno_file \<Rightarrow> anno_file" where
  "file_close f = f\<lparr>closed := True\<rparr>"

text \<open>
  \<^verbatim>\<open>for i in range(4): anno_file.write(f"{vertices[0, i]} {vertices[1, i]}\n")\<close>
\<close>

definition write_vertices :: "array2 \<Rightarrow> anno_file \<Rightarrow> anno_file" where
  "write_vertices vertices f =
     foldl (\<lambda>f i. file_write f (Line (vertices ! 0 ! i) (vertices ! 1 ! i))) f [0..<4]"

text \<open>
  What the user does is given as a script, one entry for each time the loop tests its
  condition: either the figure is gone (\<^verbatim>\<open>plt.fignum_exists\<close> is false: the Next button
  was pressed or the window closed), or it is still there and \<^verbatim>\<open>plt.ginput\<close> then
  returns the given points. A script that ends stands for a figure that is gone.
\<close>

datatype event = FigureClosed | Clicks "point list"

fun annotate_loop :: "event list \<Rightarrow> anno_file \<Rightarrow> error + anno_file" where
  "annotate_loop [] f = Inr f"
| "annotate_loop (FigureClosed # rest) f = Inr f"
| "annotate_loop (Clicks pts # rest) f =
     (case annotate_image pts of
        Inl e \<Rightarrow> Inl e
      | Inr None \<Rightarrow> Inr f
      | Inr (Some vertices) \<Rightarrow> annotate_loop rest (write_vertices vertices f))"

text \<open>
  The body of the loop over the images, for one image: open the annotation file for
  writing, run the loop, close the file.
\<close>

definition annotate_session :: "line list \<Rightarrow> event list \<Rightarrow> error + anno_file" where
  "annotate_session previous events =
     (case annotate_loop events (open_w previous) of
        Inl e \<Rightarrow> Inl e
      | Inr f \<Rightarrow> Inr (file_close f))"

subsection \<open>Notions the specification uses\<close>

text \<open>Sum, difference and dot product of two plane vectors.\<close>

definition vadd :: "point \<Rightarrow> point \<Rightarrow> point" where
  "vadd p q = (fst p + fst q, snd p + snd q)"

definition vsub :: "point \<Rightarrow> point \<Rightarrow> point" where
  "vsub p q = (fst p - fst q, snd p - snd q)"

definition dot :: "point \<Rightarrow> point \<Rightarrow> real" where
  "dot p q = fst p * fst q + snd p * snd q"

definition euclidean_distance :: "point \<Rightarrow> point \<Rightarrow> real" where
  "euclidean_distance p q = sqrt ((fst q - fst p)\<^sup>2 + (snd q - snd p)\<^sup>2)"

text \<open>Radians to degrees.\<close>

definition degrees :: "real \<Rightarrow> real" where
  "degrees r = r * 180 / pi"

text \<open>
  The area enclosed by the four corners taken in order \<open>v1, v2, v3, v4\<close>, by the
  shoelace formula.
\<close>

definition cross :: "point \<Rightarrow> point \<Rightarrow> real" where
  "cross p q = fst p * snd q - fst q * snd p"

definition quad_area :: "array2 \<Rightarrow> real" where
  "quad_area vertices =
     \<bar>cross (corner vertices 0) (corner vertices 1) + cross (corner vertices 1) (corner vertices 2)
      + cross (corner vertices 2) (corner vertices 3) + cross (corner vertices 3) (corner vertices 0)\<bar> / 2"

text \<open>The four lines a rectangle stands for in the file: one for each corner, in order.\<close>

definition line_of :: "point \<Rightarrow> line" where
  "line_of p = Line (fst p) (snd p)"

definition rectangle_lines :: "array2 \<Rightarrow> line list" where
  "rectangle_lines vertices =
     [line_of (corner vertices 0), line_of (corner vertices 1),
      line_of (corner vertices 2), line_of (corner vertices 3)]"

text \<open>
  What ends a session, seen from the script: the script is over or the figure is gone, so
  the loop's condition fails, or a capture returns fewer than three points.
\<close>

fun ends_session :: "event list \<Rightarrow> bool" where
  "ends_session [] = True"
| "ends_session (FigureClosed # rest) = True"
| "ends_session (Clicks pts # rest) = (length pts < 3)"

subsection \<open>The geometry in binary64\<close>

text \<open>
  The program computes in 64-bit floating point. For the properties that rounding decides,
  the geometry is modelled a second time with every operation rounded: a finite double is
  the real number it denotes, and an operation is the exact operation followed by rounding
  to nearest, ties to even, with 53 significant bits and the exponent not below that of the
  subnormal numbers. Infinities, NaN and the sign of zero are not modelled: a result
  beyond the largest double stays a finite number here, so the model speaks of inputs whose
  results are in range.
\<close>

text \<open>Rounding to the nearest integer, a tie going to the even one.\<close>

definition round_half_even :: "real \<Rightarrow> int" where
  "round_half_even r =
     (if r - of_int \<lfloor>r\<rfloor> < 1 / 2 then \<lfloor>r\<rfloor>
      else if 1 / 2 < r - of_int \<lfloor>r\<rfloor> then \<lfloor>r\<rfloor> + 1
      else if even \<lfloor>r\<rfloor> then \<lfloor>r\<rfloor> else \<lfloor>r\<rfloor> + 1)"

text \<open>
  The exponent of the binade of \<open>r\<close>, not below that of the smallest normal number, and
  the spacing of the doubles there (53 significant bits).
\<close>

definition f64_exponent :: "real \<Rightarrow> int" where
  "f64_exponent r = max \<lfloor>log 2 \<bar>r\<bar>\<rfloor> (- 1022)"

definition f64_ulp :: "real \<Rightarrow> real" where
  "f64_ulp r = 2 powr (of_int (f64_exponent r) - 52)"

text \<open>Rounding to the nearest double, ties to even.\<close>

definition f64_round :: "real \<Rightarrow> real" where
  "f64_round r = (if r = 0 then 0 else f64_ulp r * of_int (round_half_even (r / f64_ulp r)))"


text \<open>\<^verbatim>\<open>a + b\<close>, \<^verbatim>\<open>a * b\<close> and \<^verbatim>\<open>a / b\<close> on doubles.\<close>

definition f64_add :: "real \<Rightarrow> real \<Rightarrow> real" where
  "f64_add a b = f64_round (a + b)"

definition f64_mul :: "real \<Rightarrow> real \<Rightarrow> real" where
  "f64_mul a b = f64_round (a * b)"

definition f64_div :: "real \<Rightarrow> real \<Rightarrow> real" where
  "f64_div a b = f64_round (a / b)"

text \<open>
  \<^verbatim>\<open>np.pi\<close> is the double nearest to \<open>pi\<close>. \<^verbatim>\<open>np.cos\<close> and \<^verbatim>\<open>np.sin\<close> are taken as
  correctly rounded; what is proved below uses their values only at 0, at a tiny angle
  and next to \<open>pi / 2\<close>, and there only their sign and size.
  \<^verbatim>\<open>np.deg2rad(d)\<close> multiplies by the double \<^verbatim>\<open>np.pi / 180\<close>.
\<close>

definition np_pi :: real where
  "np_pi = f64_round pi"

definition np_cos :: "real \<Rightarrow> real" where
  "np_cos t = f64_round (cos t)"

definition np_sin :: "real \<Rightarrow> real" where
  "np_sin t = f64_round (sin t)"

definition np_deg2rad :: "real \<Rightarrow> real" where
  "np_deg2rad d = f64_mul d (f64_div np_pi 180)"

text \<open>The array operations and \<^verbatim>\<open>rectangle_w_angle\<close>, line by line as above, on doubles.\<close>

definition array_add_f64 :: "array1 \<Rightarrow> array1 \<Rightarrow> array1" where
  "array_add_f64 a b = map2 f64_add a b"

definition array_scale_f64 :: "real \<Rightarrow> array1 \<Rightarrow> array1" where
  "array_scale_f64 k a = map (f64_mul k) a"

definition rectangle_w_angle_f64 :: "real \<Rightarrow> real \<Rightarrow> real \<Rightarrow> real \<Rightarrow> real \<Rightarrow> array2" where
  "rectangle_w_angle_f64 x y width height angle_deg =
     (let theta = np_deg2rad angle_deg;
          v1 = [x, y];
          v2 = array_add_f64 v1 [f64_mul width (np_cos theta), f64_mul width (np_sin theta)];
          perp = [- np_sin theta, np_cos theta];
          v4 = array_add_f64 v1 (array_scale_f64 height perp);
          v3 = array_add_f64 v2 (array_scale_f64 height perp);
          vertices = column_stack [v1, v2, v3, v4]
      in vertices)"

subsection \<open>One capture in binary64\<close>

text \<open>
  \<^verbatim>\<open>a - b\<close> and \<^verbatim>\<open>np.sqrt\<close> on doubles; \<^verbatim>\<open>np.arctan2\<close> is taken as correctly rounded.
\<close>

definition f64_sub :: "real \<Rightarrow> real \<Rightarrow> real" where
  "f64_sub a b = f64_round (a - b)"

definition f64_sqrt :: "real \<Rightarrow> real" where
  "f64_sqrt a = f64_round (sqrt a)"

definition np_arctan2 :: "real \<Rightarrow> real \<Rightarrow> real" where
  "np_arctan2 y x = f64_round (arctan2 y x)"

text \<open>
  \<^verbatim>\<open>annotate_image\<close>, line by line as above, on doubles; \<^verbatim>\<open>d ** 2\<close> is the rounded
  product of \<open>d\<close> with itself.
\<close>

definition annotate_image_f64 :: "point list \<Rightarrow> error + array2 option" where
  "annotate_image_f64 pts =
     (if length pts < 3 then Inr None
      else (case pts of
              [(x, y), (x2, y2), (x3, y3)] \<Rightarrow>
                (let width = f64_sqrt (f64_add (f64_mul (f64_sub x x2) (f64_sub x x2))
                                               (f64_mul (f64_sub y y2) (f64_sub y y2)));
                     angle = f64_div (f64_mul (np_arctan2 (f64_sub y2 y) (f64_sub x2 x)) 180) np_pi;
                     height = f64_sqrt (f64_add (f64_mul (f64_sub x3 x2) (f64_sub x3 x2))
                                                (f64_mul (f64_sub y3 y2) (f64_sub y3 y2)));
                     vertices = rectangle_w_angle_f64 x y width height angle
                 in Inr (Some vertices))
            | _ \<Rightarrow> Inl ValueError))"

text \<open>The double nearest to \<open>pi / 2\<close>: \<^verbatim>\<open>0x1.921fb54442d18p+0\<close>.\<close>

definition np_half_pi :: real where
  "np_half_pi = 7074237752028440 / 2 ^ 52"

section \<open>The library functions\<close>

text \<open>
  Two facts that tie \<^const>\<open>arctan2\<close> to what the library function is for: its value lies
  in \<open>(-pi, pi]\<close>, and it is the polar angle of the direction it is given.
\<close>

lemma arctan2_range: "- pi < arctan2 y x \<and> arctan2 y x \<le> pi"
proof -
  have b: "- (pi / 2) < arctan (y / x)" "arctan (y / x) < pi / 2"
    by (rule arctan_lbound, rule arctan_ubound)
  have neg: "x < 0 \<Longrightarrow> 0 \<le> y \<Longrightarrow> arctan (y / x) \<le> 0"
    by (simp add: divide_nonneg_neg arctan_le_zero_iff)
  have pos: "x < 0 \<Longrightarrow> y < 0 \<Longrightarrow> 0 < arctan (y / x)"
    by (simp add: divide_neg_neg zero_less_arctan_iff)
  show ?thesis
    using b neg pos pi_gt_zero by (auto simp: arctan2_def)
qed

lemma arctan2_polar:
  assumes "x \<noteq> 0 \<or> y \<noteq> 0"
  shows "sqrt (x\<^sup>2 + y\<^sup>2) * cos (arctan2 y x) = x"
    and "sqrt (x\<^sup>2 + y\<^sup>2) * sin (arctan2 y x) = y"
proof -
  have pos: "0 < x\<^sup>2 + y\<^sup>2" using assms
    by (metis sum_power2_gt_zero_iff)
  have r: "x \<noteq> 0 \<Longrightarrow> sqrt (1 + (y / x)\<^sup>2) = sqrt (x\<^sup>2 + y\<^sup>2) / \<bar>x\<bar>"
  proof -
    assume x: "x \<noteq> 0"
    then have "1 + (y / x)\<^sup>2 = (x\<^sup>2 + y\<^sup>2) / x\<^sup>2"
      by (simp add: field_simps)
    then show ?thesis
      by (simp add: real_sqrt_divide)
  qed
  show "sqrt (x\<^sup>2 + y\<^sup>2) * cos (arctan2 y x) = x"
    using pos r by (auto simp: arctan2_def cos_arctan)
  show "sqrt (x\<^sup>2 + y\<^sup>2) * sin (arctan2 y x) = y"
    using pos r by (auto simp: arctan2_def sin_arctan)
qed

lemma deg2rad_degrees: "deg2rad (r * 180 / pi) = r"
  by (simp add: deg2rad_def)

lemma quarter_turn:
  "cos (deg2rad (a + 90)) = - sin (deg2rad a)"
  "sin (deg2rad (a + 90)) = cos (deg2rad a)"
proof -
  have "deg2rad (a + 90) = deg2rad a + pi / 2"
    by (simp add: deg2rad_def field_simps)
  then show "cos (deg2rad (a + 90)) = - sin (deg2rad a)"
    and "sin (deg2rad (a + 90)) = cos (deg2rad a)"
    by (simp_all add: cos_add sin_add)
qed

lemma sqrt_100: "sqrt 100 = 10"
  by (rule real_sqrt_unique) auto

lemma sqrt_25: "sqrt 25 = 5"
  by (rule real_sqrt_unique) auto

section \<open>Properties of the geometry\<close>

text \<open>The array that \<^const>\<open>rectangle_w_angle\<close> returns, written out.\<close>

lemma rectangle_w_angle_rows:
  "rectangle_w_angle x y w h a =
     [[x, x + w * cos (deg2rad a), x + w * cos (deg2rad a) + h * (- sin (deg2rad a)),
       x + h * (- sin (deg2rad a))],
      [y, y + w * sin (deg2rad a), y + w * sin (deg2rad a) + h * cos (deg2rad a),
       y + h * cos (deg2rad a)]]"
  by (simp add: rectangle_w_angle_def Let_def array_add_def array_scale_def column_stack_def
      upt_rec)

lemma corner_rows:
  "corner [[a0, a1, a2, a3], [b0, b1, b2, b3]] 0 = (a0, b0)"
  "corner [[a0, a1, a2, a3], [b0, b1, b2, b3]] 1 = (a1, b1)"
  "corner [[a0, a1, a2, a3], [b0, b1, b2, b3]] (Suc 0) = (a1, b1)"
  "corner [[a0, a1, a2, a3], [b0, b1, b2, b3]] 2 = (a2, b2)"
  "corner [[a0, a1, a2, a3], [b0, b1, b2, b3]] 3 = (a3, b3)"
  by (simp_all add: corner_def eval_nat_numeral)

text \<open>
  C1. For every origin \<open>(x, y)\<close>, width \<open>w\<close>, height \<open>h\<close> and angle \<open>a\<close> in degrees,
  \<^const>\<open>rectangle_w_angle\<close> returns a \<open>2 \<times> 4\<close> array whose columns are, in this order,
  \<open>v1 = (x, y)\<close>, \<open>v2 = v1 + w (cos t, sin t)\<close>, \<open>v3 = v2 + h (- sin t, cos t)\<close> and
  \<open>v4 = v1 + h (- sin t, cos t)\<close>, where \<open>t\<close> is the angle in radians. In particular the
  first corner is the origin itself.
\<close>

theorem rectangle_w_angle_corners:
  "let R = rectangle_w_angle x y w h a; t = a * pi / 180 in
     corner R 0 = (x, y) \<and>
     corner R 1 = vadd (x, y) (w * cos t, w * sin t) \<and>
     corner R 2 = vadd (corner R 1) (h * (- sin t), h * cos t) \<and>
     corner R 3 = vadd (corner R 0) (h * (- sin t), h * cos t) \<and>
     map length R = [4, 4]"
  by (simp add: rectangle_w_angle_rows corner_rows vadd_def deg2rad_def Let_def)

theorem rectangle_w_angle_corners_witness:
  "corner (rectangle_w_angle 3 4 10 5 0) 0 = (3, 4) \<and>
   corner (rectangle_w_angle 3 4 10 5 0) 1 = (13, 4) \<and>
   corner (rectangle_w_angle 3 4 10 5 0) 2 = (13, 9) \<and>
   corner (rectangle_w_angle 3 4 10 5 0) 3 = (3, 9)"
  using rectangle_w_angle_corners [of 3 4 10 5 0] by (simp add: Let_def vadd_def)

text \<open>The shoelace sum of the four corners, for any unit vector \<open>(c, s)\<close>.\<close>

lemma shoelace_sum:
  fixes c s :: real
  assumes unit: "c * c + s * s = 1"
  shows "(x * (y + w * s) - (x + w * c) * y)
       + ((x + w * c) * (y + w * s + h * c) - (x + w * c + h * (- s)) * (y + w * s))
       + ((x + w * c + h * (- s)) * (y + h * c) - (x + h * (- s)) * (y + w * s + h * c))
       + ((x + h * (- s)) * y - x * (y + h * c)) = 2 * (w * h)"
proof -
  have "(x * (y + w * s) - (x + w * c) * y)
       + ((x + w * c) * (y + w * s + h * c) - (x + w * c + h * (- s)) * (y + w * s))
       + ((x + w * c + h * (- s)) * (y + h * c) - (x + h * (- s)) * (y + w * s + h * c))
       + ((x + h * (- s)) * y - x * (y + h * c)) = 2 * (w * h) * (c * c + s * s)"
    by (simp add: algebra_simps)
  then show ?thesis by (simp add: unit)
qed

lemma quad_area_rectangle: "quad_area (rectangle_w_angle x y w h a) = \<bar>w\<bar> * \<bar>h\<bar>"
proof -
  have "cos (deg2rad a) * cos (deg2rad a) + sin (deg2rad a) * sin (deg2rad a) = 1"
    by (simp flip: power2_eq_square)
  from shoelace_sum [OF this, of x y w h] show ?thesis
    by (simp add: quad_area_def rectangle_w_angle_rows corner_rows cross_def abs_mult)
qed

lemma scaled_unit: "(k * cos t)\<^sup>2 + (k * sin t)\<^sup>2 = k\<^sup>2" for k t :: real
proof -
  have "(k * cos t)\<^sup>2 + (k * sin t)\<^sup>2 = k\<^sup>2 * ((cos t)\<^sup>2 + (sin t)\<^sup>2)"
    by (simp only: power_mult_distrib distrib_left)
  then show ?thesis by simp
qed

text \<open>
  C8. For every non-negative width, whatever the other inputs, the Euclidean distance
  between the returned corners \<open>v1\<close> and \<open>v2\<close> is the width. In exact arithmetic the two
  are equal, so they agree within every tolerance.
\<close>

theorem rectangle_w_angle_width:
  "0 \<le> w \<Longrightarrow>
   euclidean_distance (corner (rectangle_w_angle x y w h a) 0)
     (corner (rectangle_w_angle x y w h a) 1) = w"
  by (simp add: rectangle_w_angle_rows corner_rows euclidean_distance_def scaled_unit)

theorem rectangle_w_angle_width_witness:
  "(0::real) \<le> 10 \<and>
   euclidean_distance (corner (rectangle_w_angle 3 4 10 5 90) 0)
     (corner (rectangle_w_angle 3 4 10 5 90) 1) = 10"
  using rectangle_w_angle_width [of 10 3 4 5 90] by simp

section \<open>Properties of one capture\<close>

lemma annotate_image_short: "length pts < 3 \<Longrightarrow> annotate_image pts = Inr None"
  by (simp add: annotate_image_def)

lemma annotate_image_complete:
  assumes "length pts = 3"
  shows "\<exists>vs. annotate_image pts = Inr (Some vs)"
proof -
  from assms obtain p1 p2 p3 where "pts = [p1, p2, p3]"
    by (auto simp: length_Suc_conv eval_nat_numeral)
  then show ?thesis
    by (cases p1, cases p2, cases p3) (simp add: annotate_image_def)
qed

text \<open>
  C4. For every three clicks \<open>P1\<close>, \<open>P2\<close>, \<open>P3\<close> the capture takes the width to be the
  Euclidean distance from \<open>P1\<close> to \<open>P2\<close>, the angle to be \<open>atan2\<close> of the differences
  \<open>y2 - y\<close> and \<open>x2 - x\<close>, in degrees, and the height to be the Euclidean distance from
  \<open>P2\<close> to \<open>P3\<close>, and returns what \<^const>\<open>rectangle_w_angle\<close> gives for \<open>P1\<close> and these
  three numbers.
\<close>

theorem annotate_image_three_clicks:
  "annotate_image [p1, p2, p3] =
     Inr (Some (rectangle_w_angle (fst p1) (snd p1)
       (euclidean_distance p1 p2) (euclidean_distance p2 p3)
       (degrees (arctan2 (snd p2 - snd p1) (fst p2 - fst p1)))))"
  by (cases p1, cases p2, cases p3)
     (simp add: annotate_image_def euclidean_distance_def degrees_def power2_commute)

theorem annotate_image_three_clicks_witness:
  "annotate_image [(0, 0), (10, 0), (10, 5)] = Inr (Some (rectangle_w_angle 0 0 10 5 0))"
  using annotate_image_three_clicks [of "(0, 0)" "(10, 0)" "(10, 5)"]
  by (simp add: euclidean_distance_def degrees_def arctan2_def sqrt_100 sqrt_25)

text \<open>
  C10. For every three clicks, the width and the height that the capture computes and
  hands to \<^const>\<open>rectangle_w_angle\<close> are non-negative: each is the square root of a sum
  of two squares.
\<close>

theorem annotate_image_dimensions_nonneg:
  "let width = sqrt ((x - x2)\<^sup>2 + (y - y2)\<^sup>2);
       angle = arctan2 (y2 - y) (x2 - x) * 180 / pi;
       height = sqrt ((x3 - x2)\<^sup>2 + (y3 - y2)\<^sup>2)
   in annotate_image [(x, y), (x2, y2), (x3, y3)] =
        Inr (Some (rectangle_w_angle x y width height angle)) \<and>
      0 \<le> width \<and> 0 \<le> height"
  by (simp add: annotate_image_def)

theorem annotate_image_dimensions_nonneg_witness:
  "annotate_image [(10, 5), (0, 5), (0, 0)] = Inr (Some (rectangle_w_angle 10 5 10 5 180)) \<and>
   (0::real) \<le> 10 \<and> (0::real) \<le> 5"
  using annotate_image_dimensions_nonneg [of 10 0 5 5 0 0]
  by (simp add: Let_def arctan2_def sqrt_100 sqrt_25)

text \<open>
  In exact arithmetic, the clicks \<open>(0, 0)\<close>, \<open>(0, 10)\<close>, \<open>(5, 10)\<close> give the angle 90 degrees, and the
  corners \<open>(0, 0)\<close>, \<open>(0, 10)\<close>, \<open>(-5, 10)\<close>, \<open>(-5, 0)\<close> in the order \<open>v1, v2, v3, v4\<close>.
\<close>

lemma vertical_scenario:
  "degrees (arctan2 (10 - 0) (0 - 0)) = 90 \<and>
   annotate_image [(0, 0), (0, 10), (5, 10)] = Inr (Some (rectangle_w_angle 0 0 10 5 90)) \<and>
   map (corner (rectangle_w_angle 0 0 10 5 90)) [0, 1, 2, 3] =
     [(0, 0), (0, 10), (- 5, 10), (- 5, 0)]"
  by (simp add: annotate_image_def degrees_def arctan2_def sqrt_100 rectangle_w_angle_rows
      corner_rows deg2rad_def)

text \<open>
  The second corner of a captured rectangle is the second click: width and angle are the
  polar coordinates of \<open>P2 - P1\<close>.
\<close>

lemma annotate_image_second_corner:
  assumes "annotate_image [(x, y), (x2, y2), (x3, y3)] = Inr (Some vs)"
  shows "corner vs 1 = (x2, y2)"
proof -
  let ?w = "sqrt ((x2 - x)\<^sup>2 + (y2 - y)\<^sup>2)"
  let ?t = "arctan2 (y2 - y) (x2 - x)"
  have vs: "vs = rectangle_w_angle x y ?w (sqrt ((x3 - x2)\<^sup>2 + (y3 - y2)\<^sup>2)) (?t * 180 / pi)"
    using assms by (simp add: annotate_image_def power2_commute)
  have "?w * cos ?t = x2 - x \<and> ?w * sin ?t = y2 - y"
  proof (cases "x2 - x \<noteq> 0 \<or> y2 - y \<noteq> 0")
    case True
    then show ?thesis by (simp add: arctan2_polar)
  next
    case False
    then show ?thesis by simp
  qed
  then show ?thesis
    by (simp add: vs rectangle_w_angle_rows corner_rows deg2rad_degrees)
qed

lemma horizontal_capture:
  "annotate_image [(0, 0), (10, 0), (10, 5)] = Inr (Some [[0, 10, 10, 0], [0, 0, 5, 5]])"
  by (simp add: annotate_image_def arctan2_def sqrt_100 sqrt_25 rectangle_w_angle_rows
      deg2rad_def)

section \<open>Properties of the session\<close>

lemma write_vertices_contents:
  "write_vertices vs f = f\<lparr>contents := contents f @ rectangle_lines vs\<rparr>"
  by (simp add: write_vertices_def rectangle_lines_def line_of_def corner_def file_write_def
      eval_nat_numeral)

text \<open>Completed captures at the head of the script: each appends its four lines.\<close>

lemma annotate_loop_completed:
  assumes "list_all2 (\<lambda>pts vs. annotate_image pts = Inr (Some vs)) atts rects"
  shows "annotate_loop (map Clicks atts @ stop) f =
         annotate_loop stop (f\<lparr>contents := contents f @ concat (map rectangle_lines rects)\<rparr>)"
  using assms
proof (induction atts rects arbitrary: f rule: list_all2_induct)
  case Nil
  then show ?case by simp
next
  case (Cons pts atts vs rects)
  then show ?case
    by (simp add: write_vertices_contents)
qed

lemma annotate_loop_ends: "ends_session stop \<Longrightarrow> annotate_loop stop f = Inr f"
  by (induction stop f rule: annotate_loop.induct) (simp_all add: annotate_image_short)

lemma completed_captures:
  "\<forall>pts\<in>set atts. length pts = 3 \<Longrightarrow>
   \<exists>rects. list_all2 (\<lambda>pts vs. annotate_image pts = Inr (Some vs)) atts rects"
proof (induction atts)
  case Nil
  then show ?case by simp
next
  case (Cons pts atts)
  then obtain rects where "list_all2 (\<lambda>pts vs. annotate_image pts = Inr (Some vs)) atts rects"
    by auto
  moreover from Cons.prems obtain vs where "annotate_image pts = Inr (Some vs)"
    using annotate_image_complete [of pts] by auto
  ultimately have
    "list_all2 (\<lambda>pts vs. annotate_image pts = Inr (Some vs)) (pts # atts) (vs # rects)"
    by simp
  then show ?case ..
qed

lemma length_rectangle_lines: "length (concat (map rectangle_lines rects)) = 4 * length rects"
  by (induction rects) (simp_all add: rectangle_lines_def)

text \<open>
  C2. In a session for one image in which the user completes exactly \<open>N\<close> rectangles (the
  script is \<open>N\<close> captures of three clicks each, followed by whatever ends the session),
  the annotation file, created empty, ends up closed and holding exactly \<open>4 N\<close> lines:
  for each rectangle, in the order of annotation, the four lines of its corners
  \<open>v1, v2, v3, v4\<close>, each line made of the two coordinates of one corner.
\<close>

theorem session_output:
  assumes "\<forall>pts\<in>set atts. length pts = 3" and "ends_session stop"
  shows "\<exists>rects. list_all2 (\<lambda>pts vs. annotate_image pts = Inr (Some vs)) atts rects \<and>
           annotate_session previous (map Clicks atts @ stop) =
             Inr \<lparr>contents = concat (map rectangle_lines rects), closed = True\<rparr> \<and>
           length (concat (map rectangle_lines rects)) = 4 * length atts"
proof -
  from assms(1) obtain rects
    where rects: "list_all2 (\<lambda>pts vs. annotate_image pts = Inr (Some vs)) atts rects"
    using completed_captures by blast
  then have len: "length rects = length atts"
    by (simp add: list_all2_lengthD)
  have "annotate_loop (map Clicks atts @ stop) (open_w previous) =
        Inr \<lparr>contents = concat (map rectangle_lines rects), closed = False\<rparr>"
    by (simp add: annotate_loop_completed [OF rects] annotate_loop_ends [OF assms(2)] open_w_def)
  then have "annotate_session previous (map Clicks atts @ stop) =
        Inr \<lparr>contents = concat (map rectangle_lines rects), closed = True\<rparr>"
    by (simp add: annotate_session_def file_close_def)
  with rects len show ?thesis
    by (auto simp: length_rectangle_lines)
qed

theorem session_output_witness:
  "length [(0, 0), (10, 0), (10, 5 :: real)] = 3 \<and> ends_session [Clicks []] \<and>
   annotate_session [Line 7 7] (map Clicks [[(0, 0), (10, 0), (10, 5)]] @ [Clicks []]) =
     Inr \<lparr>contents = [Line 0 0, Line 10 0, Line 10 5, Line 0 5], closed = True\<rparr>"
  using session_output [of "[[(0, 0), (10, 0), (10, 5)]]" "[Clicks []]" "[Line 7 7]"]
  by (auto simp: horizontal_capture list_all2_Cons1 rectangle_lines_def line_of_def corner_rows)

text \<open>
  C3. A capture that returns fewer than three points emits no rectangle and ends the
  session: \<^const>\<open>annotate_image\<close> returns \<^verbatim>\<open>None\<close>, the loop stops with the file as it
  was (no line is written for the attempt, and what was written before stays), whatever
  the script holds after it is never looked at, and the session gives the closed file it
  would have given had it ended just before the attempt.
\<close>

theorem short_capture_ends_session:
  assumes "length pts < 3"
  shows "annotate_image pts = Inr None \<and>
         annotate_loop (Clicks pts # rest) f = Inr f \<and>
         annotate_loop (events @ Clicks pts # rest) f = annotate_loop events f \<and>
         annotate_session previous (events @ Clicks pts # rest) =
           annotate_session previous events \<and>
         annotate_session previous (Clicks pts # rest) = Inr \<lparr>contents = [], closed = True\<rparr>"
proof -
  have short: "annotate_image pts = Inr None"
    using assms by (rule annotate_image_short)
  have loop: "annotate_loop (events @ Clicks pts # rest) g = annotate_loop events g" for g
  proof (induction events g rule: annotate_loop.induct)
    case (1 f)
    then show ?case by (simp add: short)
  next
    case (2 rest f)
    then show ?case by simp
  next
    case (3 pts rest f)
    then show ?case by (simp split: sum.splits option.splits)
  qed
  show ?thesis
    by (simp add: short loop annotate_session_def open_w_def file_close_def)
qed

theorem short_capture_ends_session_witness:
  "length [(1, 2 :: real)] < 3 \<and>
   annotate_image [(1, 2)] = Inr None \<and>
   annotate_loop [Clicks [(1, 2)], Clicks [(0, 0), (10, 0), (10, 5)]]
       \<lparr>contents = [Line 3 4], closed = False\<rparr>
     = Inr \<lparr>contents = [Line 3 4], closed = False\<rparr> \<and>
   annotate_session []
       ([Clicks [(0, 0), (10, 0), (10, 5)]] @ [Clicks [(1, 2)], Clicks [(0, 0), (10, 0), (10, 5)]])
     = Inr \<lparr>contents = [Line 0 0, Line 10 0, Line 10 5, Line 0 5], closed = True\<rparr>"
  using short_capture_ends_session [of "[(1, 2)]" "[Clicks [(0, 0), (10, 0), (10, 5)]]"
      "\<lparr>contents = [Line 3 4], closed = False\<rparr>" "[Clicks [(0, 0), (10, 0), (10, 5)]]" "[]"]
  by (simp add: annotate_session_def horizontal_capture write_vertices_contents open_w_def
      file_close_def rectangle_lines_def line_of_def corner_rows)

section \<open>Binary64 rounding\<close>

lemma round_half_even_of_int [simp]: "round_half_even (of_int k) = k"
  by (simp add: round_half_even_def)

lemma round_half_even_error: "\<bar>of_int (round_half_even r) - r\<bar> \<le> 1 / 2"
  unfolding round_half_even_def by (auto simp: abs_le_iff)

lemma round_half_even_ge: "of_int k \<le> r \<Longrightarrow> k \<le> round_half_even r"
proof -
  assume "of_int k \<le> r"
  then have "k \<le> \<lfloor>r\<rfloor>" by (simp add: le_floor_iff)
  then show ?thesis by (simp add: round_half_even_def)
qed

lemma round_half_even_le: "r \<le> of_int k \<Longrightarrow> round_half_even r \<le> k"
proof (cases "r = of_int k")
  case True
  then show ?thesis by simp
next
  case False
  assume "r \<le> of_int k"
  with False have "r < of_int k" by simp
  then have "\<lfloor>r\<rfloor> < k" by (simp add: floor_less_iff)
  then show ?thesis by (simp add: round_half_even_def)
qed

lemma round_half_even_uminus: "round_half_even (- r) = - round_half_even r"
proof (cases "r = of_int \<lfloor>r\<rfloor>")
  case True
  then obtain k where "r = of_int k" ..
  then have "- r = of_int (- k)" by simp
  then show ?thesis unfolding \<open>r = of_int k\<close> by (metis round_half_even_of_int)
next
  case False
  then have fl: "\<lfloor>- r\<rfloor> = - \<lfloor>r\<rfloor> - 1"
    by (simp add: floor_minus ceiling_altdef)
  show ?thesis
    unfolding round_half_even_def fl by (auto simp: field_simps)
qed

lemma round_half_even_near:
  assumes "\<bar>r - of_int k\<bar> < 1 / 2"
  shows "round_half_even r = k"
proof -
  have "\<bar>of_int (round_half_even r) - r\<bar> \<le> 1 / 2"
    by (rule round_half_even_error)
  with assms have "\<bar>(of_int (round_half_even r) :: real) - of_int k\<bar> < 1"
    by linarith
  then have "\<bar>round_half_even r - k\<bar> < 1"
    by (metis of_int_1 of_int_abs of_int_diff of_int_less_iff)
  then show ?thesis by simp
qed

lemma f64_ulp_pos [simp]: "0 < f64_ulp r"
  by (simp add: f64_ulp_def)

lemma f64_ulp_nonzero [simp]: "f64_ulp r \<noteq> 0"
  by (simp add: f64_ulp_def)

lemma pos_if_ge_powr: "2 powr e \<le> r \<Longrightarrow> 0 < r" for r e :: real
  using powr_gt_zero [of 2 e] by linarith

lemma f64_exponent_eq:
  assumes "2 powr of_int e \<le> \<bar>r\<bar>" "\<bar>r\<bar> < 2 powr (of_int e + 1)" "- 1022 \<le> e"
  shows "f64_exponent r = e"
proof -
  have "0 < \<bar>r\<bar>" using assms(1) by (rule pos_if_ge_powr)
  then have "\<lfloor>log 2 \<bar>r\<bar>\<rfloor> = e"
    using assms(1,2) by (simp add: floor_log_eq_powr_iff)
  then show ?thesis using assms(3) by (simp add: f64_exponent_def)
qed

lemma f64_exponent_subnormal:
  assumes "r \<noteq> 0" "\<bar>r\<bar> < 2 powr (- 1022)"
  shows "f64_exponent r = - 1022"
proof -
  have "log 2 \<bar>r\<bar> < - 1022"
    using assms by (simp add: log_less_iff)
  then have "\<lfloor>log 2 \<bar>r\<bar>\<rfloor> < - 1022"
    by (simp add: floor_less_iff)
  then show ?thesis by (simp add: f64_exponent_def)
qed

lemma f64_exponent_ge: "- 1022 \<le> f64_exponent r"
  by (simp add: f64_exponent_def)

lemma f64_exponent_uminus [simp]: "f64_exponent (- r) = f64_exponent r"
  by (simp add: f64_exponent_def)

lemma f64_ulp_uminus [simp]: "f64_ulp (- r) = f64_ulp r"
  by (simp add: f64_ulp_def)

lemma f64_round_uminus: "f64_round (- r) = - f64_round r"
  by (simp add: f64_round_def round_half_even_uminus)

lemma f64_round_0 [simp]: "f64_round 0 = 0"
  by (simp add: f64_round_def)

text \<open>Below the next power of two, and in the normal range not below the power itself.\<close>

lemma abs_less_next_binade:
  assumes "r \<noteq> 0"
  shows "\<bar>r\<bar> < 2 powr (of_int (f64_exponent r) + 1)"
proof -
  have "0 < \<bar>r\<bar>" using assms by simp
  then have "\<bar>r\<bar> < 2 powr (of_int \<lfloor>log 2 \<bar>r\<bar>\<rfloor> + 1)"
    using floor_log_eq_powr_iff [of "\<bar>r\<bar>" 2 "\<lfloor>log 2 \<bar>r\<bar>\<rfloor>"] by simp
  also have "\<dots> \<le> 2 powr (of_int (f64_exponent r) + 1)"
    by (simp add: f64_exponent_def)
  finally show ?thesis .
qed

lemma binade_le_abs:
  assumes "r \<noteq> 0" "- 1022 < f64_exponent r"
  shows "2 powr of_int (f64_exponent r) \<le> \<bar>r\<bar>"
proof -
  have "0 < \<bar>r\<bar>" using assms by simp
  moreover have "f64_exponent r = \<lfloor>log 2 \<bar>r\<bar>\<rfloor>"
    using assms(2) by (simp add: f64_exponent_def max_def split: if_splits)
  ultimately show ?thesis
    using floor_log_eq_powr_iff [of "\<bar>r\<bar>" 2 "\<lfloor>log 2 \<bar>r\<bar>\<rfloor>"] by simp
qed

lemma f64_round_error: "\<bar>f64_round r - r\<bar> \<le> f64_ulp r / 2"
proof (cases "r = 0")
  case True
  then show ?thesis by (simp add: less_imp_le)
next
  case False
  let ?u = "f64_ulp r"
  have "f64_round r - r = ?u * (of_int (round_half_even (r / ?u)) - r / ?u)"
    using False by (simp add: f64_round_def right_diff_distrib)
  then have "\<bar>f64_round r - r\<bar> = ?u * \<bar>of_int (round_half_even (r / ?u)) - r / ?u\<bar>"
    by (simp add: abs_mult abs_of_pos)
  also have "\<dots> \<le> ?u * (1 / 2)"
    by (intro mult_left_mono round_half_even_error) (simp add: less_imp_le)
  finally show ?thesis by simp
qed

text \<open>A multiple of the unit of its own binade is a fixed point of the rounding.\<close>

lemma f64_round_grid:
  assumes "r = f64_ulp r * of_int k"
  shows "f64_round r = r"
proof (cases "r = 0")
  case True
  then show ?thesis by simp
next
  case False
  have "r / f64_ulp r = of_int k"
    using assms by (metis f64_ulp_nonzero nonzero_mult_div_cancel_left)
  then show ?thesis
    using False assms by (simp add: f64_round_def)
qed

lemma f64_round_normal_grid:
  assumes "2 powr of_int e \<le> \<bar>r\<bar>" "\<bar>r\<bar> < 2 powr (of_int e + 1)" "- 1022 \<le> e"
    and "r = 2 powr (of_int e - 52) * of_int k"
  shows "f64_round r = r"
proof -
  have "f64_ulp r = 2 powr (of_int e - 52)"
    using f64_exponent_eq [OF assms(1-3)] by (simp add: f64_ulp_def)
  with assms(4) show ?thesis
    by (intro f64_round_grid [of r k]) simp
qed

lemma f64_round_power_of_two:
  assumes "- 1022 \<le> e"
  shows "f64_round (2 powr of_int e) = 2 powr of_int e"
proof -
  have "(2::real) powr of_int e = 2 powr (of_int e - 52) * of_int (2 ^ 52)"
    by (simp add: powr_diff)
  moreover have "(2::real) powr of_int e < 2 powr (of_int e + 1)"
    by (simp add: powr_less_cancel_iff)
  ultimately show ?thesis
    using assms by (intro f64_round_normal_grid [of e _ "2 ^ 52"]) simp_all
qed

lemma f64_round_normal:
  assumes "2 powr of_int e \<le> \<bar>r\<bar>" "\<bar>r\<bar> < 2 powr (of_int e + 1)" "- 1022 \<le> e"
  shows "f64_round r =
    2 powr (of_int e - 52) * of_int (round_half_even (r / 2 powr (of_int e - 52)))"
proof -
  have "r \<noteq> 0" using pos_if_ge_powr [OF assms(1)] by auto
  moreover have "f64_ulp r = 2 powr (of_int e - 52)"
    using f64_exponent_eq [OF assms] by (simp add: f64_ulp_def)
  ultimately show ?thesis by (simp add: f64_round_def)
qed

text \<open>Rounding keeps a positive number between the powers of two that enclose it.\<close>

lemma f64_round_binade:
  assumes "2 powr of_int e \<le> r" "r < 2 powr (of_int e + 1)" "- 1022 \<le> e"
  shows "2 powr of_int e \<le> f64_round r" and "f64_round r \<le> 2 powr (of_int e + 1)"
proof -
  let ?u = "2 powr (of_int e - 52) :: real"
  let ?n = "round_half_even (r / ?u)"
  have rpos: "0 < r" using assms(1) by (rule pos_if_ge_powr)
  have s: "f64_round r = ?u * of_int ?n"
    using f64_round_normal [of e r] assms rpos by simp
  have "2 powr of_int e / ?u \<le> r / ?u"
    using assms(1) by (simp add: divide_right_mono)
  moreover have "2 powr of_int e / ?u = of_int (2 ^ 52)"
    by (simp flip: powr_diff)
  ultimately have "2 ^ 52 \<le> ?n"
    by (intro round_half_even_ge) simp
  then have n52: "(of_int (2 ^ 52) :: real) \<le> of_int ?n"
    by (simp only: of_int_le_iff)
  have "2 powr of_int e = ?u * of_int (2 ^ 52)"
    by (simp add: powr_diff)
  also have "\<dots> \<le> ?u * of_int ?n"
    using n52 by (rule mult_left_mono) simp
  finally show "2 powr of_int e \<le> f64_round r" by (simp only: s)
  have "r / ?u \<le> 2 powr (of_int e + 1) / ?u"
    using assms(2) by (simp add: divide_right_mono)
  moreover have "2 powr (of_int e + 1) / ?u = of_int (2 ^ 53)"
    by (simp flip: powr_diff)
  ultimately have "?n \<le> 2 ^ 53"
    by (intro round_half_even_le) simp
  then have n53: "(of_int ?n :: real) \<le> of_int (2 ^ 53)"
    by (simp only: of_int_le_iff)
  have "?u * of_int ?n \<le> ?u * of_int (2 ^ 53)"
    using n53 by (rule mult_left_mono) simp
  also have "\<dots> = 2 powr (of_int e + 1)"
    by (simp add: powr_diff powr_add)
  finally show "f64_round r \<le> 2 powr (of_int e + 1)" by (simp only: s)
qed

lemma f64_round_range:
  assumes "2 powr of_int a \<le> r" "r < 2 powr of_int b" "- 1022 \<le> a"
  shows "2 powr of_int a \<le> f64_round r \<and> f64_round r \<le> 2 powr of_int b"
proof -
  let ?e = "\<lfloor>log 2 r\<rfloor>"
  have rpos: "0 < r" using assms(1) by (rule pos_if_ge_powr)
  then have e: "2 powr of_int ?e \<le> r" "r < 2 powr (of_int ?e + 1)"
    using floor_log_eq_powr_iff [of r 2 ?e] by simp_all
  have "(2::real) powr of_int a < 2 powr (of_int ?e + 1)"
    using assms(1) e(2) by linarith
  then have "(of_int a :: real) < of_int ?e + 1" by simp
  then have ae: "a \<le> ?e" by linarith
  have "(2::real) powr of_int ?e < 2 powr of_int b"
    using assms(2) e(1) by linarith
  then have eb: "?e + 1 \<le> b" by simp
  have "- 1022 \<le> ?e" using ae assms(3) by linarith
  note bin = f64_round_binade [OF e this]
  have "(2::real) powr of_int a \<le> 2 powr of_int ?e"
    using ae by simp
  moreover have "(2::real) powr (of_int ?e + 1) \<le> 2 powr of_int b"
    using eb by (metis of_int_1 of_int_add of_int_le_iff one_le_numeral powr_mono)
  ultimately show ?thesis using bin by linarith
qed

text \<open>Rounding twice is rounding once: the result of a rounding is a double.\<close>

lemma f64_round_idem_pos:
  assumes "0 < r"
  shows "f64_round (f64_round r) = f64_round r"
proof -
  let ?E = "f64_exponent r"
  let ?u = "2 powr (of_int ?E - 52) :: real"
  let ?n = "round_half_even (r / ?u)"
  have u: "f64_ulp r = ?u" by (simp add: f64_ulp_def)
  have s: "f64_round r = ?u * of_int ?n"
    using assms by (simp add: f64_round_def u)
  have "r < 2 powr (of_int ?E + 1)"
    using abs_less_next_binade [of r] assms by simp
  then have "r / ?u < 2 powr (of_int ?E + 1) / ?u"
    by (simp add: divide_strict_right_mono)
  also have "2 powr (of_int ?E + 1) / ?u = 2 ^ 53"
    by (simp flip: powr_diff)
  finally have "r / ?u \<le> of_int (2 ^ 53)" by simp
  then have n_le: "?n \<le> 2 ^ 53" by (rule round_half_even_le)
  have "0 \<le> r / ?u" using assms by simp
  then have n_ge: "0 \<le> ?n" using round_half_even_ge [of 0 "r / ?u"] by simp
  consider "?n = 0" | "?n = 2 ^ 53" | "0 < ?n" "?n < 2 ^ 53"
    using n_le n_ge by linarith
  then show ?thesis
  proof cases
    case 1
    then show ?thesis by (simp add: s)
  next
    case 2
    then have "f64_round r = ?u * 2 ^ 53" by (simp add: s)
    also have "\<dots> = 2 powr (of_int (?E + 1))"
      by (simp add: powr_diff powr_add)
    finally have "f64_round r = 2 powr (of_int (?E + 1))" .
    moreover have "- 1022 \<le> ?E + 1" using f64_exponent_ge [of r] by simp
    ultimately show ?thesis
      using f64_round_power_of_two [of "?E + 1"] by simp
  next
    case 3
    let ?s = "?u * of_int ?n"
    have spos: "0 < ?s" using 3 by simp
    have s_lt: "?s < 2 powr (of_int ?E + 1)"
    proof -
      have "(of_int ?n :: real) < of_int (2 ^ 53)"
        using 3(2) by (simp only: of_int_less_iff)
      then have "?s < ?u * of_int (2 ^ 53)"
        by (rule mult_strict_left_mono) simp
      also have "\<dots> = 2 powr (of_int ?E + 1)"
        by (simp add: powr_diff powr_add)
      finally show ?thesis .
    qed
    have "f64_exponent ?s = ?E"
    proof (cases "- 1022 < ?E")
      case True
      then have "2 powr of_int ?E \<le> r"
        using binade_le_abs [of r] assms by simp
      then have "2 powr of_int ?E / ?u \<le> r / ?u"
        by (simp add: divide_right_mono)
      moreover have "2 powr of_int ?E / ?u = of_int (2 ^ 52)"
        by (simp flip: powr_diff)
      ultimately have "2 ^ 52 \<le> ?n"
        by (intro round_half_even_ge) simp
      then have n52: "(of_int (2 ^ 52) :: real) \<le> of_int ?n"
        by (simp only: of_int_le_iff)
      have "2 powr of_int ?E = ?u * of_int (2 ^ 52)"
        by (simp add: powr_diff)
      also have "\<dots> \<le> ?s"
        using n52 by (rule mult_left_mono) simp
      finally have "2 powr of_int ?E \<le> \<bar>?s\<bar>" using spos by linarith
      moreover have "\<bar>?s\<bar> < 2 powr (of_int ?E + 1)" using s_lt spos by simp
      ultimately show ?thesis
        using True by (intro f64_exponent_eq) simp_all
    next
      case False
      then have E: "?E = - 1022" using f64_exponent_ge [of r] by simp
      show ?thesis
      proof (cases "?s < 2 powr (- 1022)")
        case True
        have "?s \<noteq> 0" using spos by linarith
        moreover have "\<bar>?s\<bar> < 2 powr (- 1022)" using True spos by linarith
        ultimately have "f64_exponent ?s = - 1022" by (rule f64_exponent_subnormal)
        then show ?thesis by (simp only: E)
      next
        case False
        then have "2 powr of_int ?E \<le> \<bar>?s\<bar>" using E by simp
        moreover have "\<bar>?s\<bar> < 2 powr (of_int ?E + 1)" using s_lt spos by simp
        ultimately show ?thesis
          using E by (intro f64_exponent_eq) simp_all
      qed
    qed
    then have "f64_ulp ?s = ?u" by (simp add: f64_ulp_def)
    then have "f64_round ?s = ?s"
      by (intro f64_round_grid [of ?s ?n]) simp
    then show ?thesis by (simp add: s)
  qed
qed

lemma f64_round_idem [simp]: "f64_round (f64_round r) = f64_round r"
proof -
  consider "r = 0" | "0 < r" | "0 < - r" by linarith
  then show ?thesis
  proof cases
    case 1
    then show ?thesis by simp
  next
    case 2
    then show ?thesis by (rule f64_round_idem_pos)
  next
    case 3
    then have "f64_round (f64_round (- r)) = f64_round (- r)" by (rule f64_round_idem_pos)
    then show ?thesis by (simp add: f64_round_uminus)
  qed
qed

text \<open>
  The error of one rounding, relative to the result: at most \<open>2\<^sup>-\<^sup>5\<^sup>3\<close> of it in the normal
  range, and at most \<open>2\<^sup>-\<^sup>1\<^sup>0\<^sup>7\<^sup>5\<close> below it.
\<close>

lemma half_powr: "2 powr a / 2 = 2 powr (a - 1)" for a :: real
  by (simp add: powr_diff)

lemma f64_round_rel_error_pos:
  assumes "0 < r"
  shows "\<bar>f64_round r - r\<bar> \<le> \<bar>f64_round r\<bar> / 2 ^ 53 + 2 powr (- 1075)"
proof (cases "2 powr (- 1022) \<le> r")
  case True
  let ?e = "\<lfloor>log 2 r\<rfloor>"
  have e: "2 powr of_int ?e \<le> r" "r < 2 powr (of_int ?e + 1)"
    using assms floor_log_eq_powr_iff [of r 2 ?e] by simp_all
  have "(2::real) powr (- 1022) < 2 powr (of_int ?e + 1)"
    using True e(2) by linarith
  then have "(- 1022 :: real) < of_int ?e + 1" by simp
  then have e_ge: "- 1022 \<le> ?e" by linarith
  have "f64_exponent r = ?e"
    using e e_ge assms by (intro f64_exponent_eq) simp_all
  then have "f64_ulp r / 2 = 2 powr of_int ?e / 2 ^ 53"
    by (simp add: f64_ulp_def powr_diff)
  also have "\<dots> \<le> f64_round r / 2 ^ 53"
    using f64_round_binade(1) [OF e e_ge] by (simp add: divide_right_mono)
  also have "\<dots> \<le> \<bar>f64_round r\<bar> / 2 ^ 53"
    by (simp add: divide_right_mono)
  finally have "f64_ulp r / 2 \<le> \<bar>f64_round r\<bar> / 2 ^ 53" .
  moreover have "(0::real) \<le> 2 powr (- 1075)" by simp
  ultimately show ?thesis
    using f64_round_error [of r] by linarith
next
  case False
  then have "f64_exponent r = - 1022"
    using assms by (intro f64_exponent_subnormal) simp_all
  then have "f64_ulp r / 2 = 2 powr (- 1075)"
    by (simp add: f64_ulp_def half_powr)
  moreover have "0 \<le> \<bar>f64_round r\<bar> / 2 ^ 53" by simp
  ultimately show ?thesis
    using f64_round_error [of r] by linarith
qed

lemma f64_round_rel_error:
  "\<bar>f64_round r - r\<bar> \<le> \<bar>f64_round r\<bar> / 2 ^ 53 + 2 powr (- 1075)"
proof -
  consider "r = 0" | "0 < r" | "0 < - r" by linarith
  then show ?thesis
  proof cases
    case 1
    then show ?thesis by simp
  next
    case 2
    then show ?thesis by (rule f64_round_rel_error_pos)
  next
    case 3
    then have "\<bar>f64_round (- r) - (- r)\<bar> \<le> \<bar>f64_round (- r)\<bar> / 2 ^ 53 + 2 powr (- 1075)"
      by (rule f64_round_rel_error_pos)
    moreover have "\<bar>f64_round (- r) - (- r)\<bar> = \<bar>f64_round r - r\<bar>"
      by (simp add: f64_round_uminus abs_minus_commute)
    ultimately show ?thesis by (simp add: f64_round_uminus)
  qed
qed

text \<open>Some doubles, and numbers next to 1 that round to it.\<close>

lemma f64_round_one_plus:
  assumes "\<bar>p\<bar> < 1 / 2 ^ 54"
  shows "f64_round (1 + p) = 1"
proof (cases "0 \<le> p")
  case True
  have "f64_round (1 + p) =
      2 powr (of_int 0 - 52) * of_int (round_half_even ((1 + p) / 2 powr (of_int 0 - 52)))"
    using True assms by (intro f64_round_normal) simp_all
  moreover have "round_half_even ((1 + p) / 2 powr (of_int 0 - 52)) = 2 ^ 52"
    using True assms by (intro round_half_even_near) (simp add: powr_minus field_simps)
  ultimately show ?thesis by (simp add: powr_minus)
next
  case False
  have "f64_round (1 + p) =
      2 powr (of_int (- 1) - 52) * of_int (round_half_even ((1 + p) / 2 powr (of_int (- 1) - 52)))"
    using False assms by (intro f64_round_normal) (simp_all add: powr_minus)
  moreover have "round_half_even ((1 + p) / 2 powr (of_int (- 1) - 52)) = 2 ^ 53"
    using False assms by (intro round_half_even_near) (simp add: powr_minus field_simps)
  ultimately show ?thesis by (simp add: powr_minus)
qed

lemma f64_round_inverse_power:
  assumes "n \<le> 1022"
  shows "f64_round (1 / 2 ^ n) = 1 / 2 ^ n"
proof -
  have "(1::real) / 2 ^ n = 2 powr of_int (- int n)"
    by (simp add: powr_minus powr_realpow inverse_eq_divide)
  moreover have "- 1022 \<le> - int n" using assms by simp
  ultimately show ?thesis
    using f64_round_power_of_two [of "- int n"] by simp
qed

lemma f64_round_1 [simp]: "f64_round 1 = 1"
  using f64_round_power_of_two [of 0] by simp

lemma f64_round_2: "f64_round 2 = 2"
  using f64_round_power_of_two [of 1] by simp

lemma f64_round_3: "f64_round 3 = 3"
  by (rule f64_round_normal_grid [of 1 _ "3 * 2 ^ 51"]) (simp_all add: powr_minus)

lemma f64_round_4: "f64_round 4 = 4"
  using f64_round_power_of_two [of 2] by simp

lemma f64_round_5: "f64_round 5 = 5"
  by (rule f64_round_normal_grid [of 2 _ "5 * 2 ^ 50"]) (simp_all add: powr_minus)

lemma f64_round_9: "f64_round 9 = 9"
  by (rule f64_round_normal_grid [of 3 _ "9 * 2 ^ 49"]) (simp_all add: powr_minus)

section \<open>Properties of the geometry in binary64\<close>

text \<open>The array that \<^const>\<open>rectangle_w_angle_f64\<close> returns, written out.\<close>

lemma rectangle_w_angle_f64_rows:
  "rectangle_w_angle_f64 x y w h a =
     (let c = np_cos (np_deg2rad a); s = np_sin (np_deg2rad a) in
      [[x, f64_add x (f64_mul w c), f64_add (f64_add x (f64_mul w c)) (f64_mul h (- s)),
        f64_add x (f64_mul h (- s))],
       [y, f64_add y (f64_mul w s), f64_add (f64_add y (f64_mul w s)) (f64_mul h c),
        f64_add y (f64_mul h c)]])"
  by (simp add: rectangle_w_angle_f64_def Let_def array_add_f64_def array_scale_f64_def
      column_stack_def upt_rec)

lemma zero_angle_f64: "np_deg2rad 0 = 0" "np_cos 0 = 1" "np_sin 0 = 0"
  by (simp_all add: np_deg2rad_def f64_mul_def np_cos_def np_sin_def)

lemma f64_add_0 [simp]: "f64_add a 0 = f64_round a"
  by (simp add: f64_add_def)

lemma f64_mul_0 [simp]: "f64_mul 0 b = 0"
  by (simp add: f64_mul_def)

lemma f64_round_add_fixed [simp]: "f64_round (f64_add a b) = f64_add a b"
  by (simp add: f64_add_def)

subsection \<open>Zero area\<close>

text \<open>A width far below the spacing of the doubles around 3 is absorbed.\<close>

lemma f64_round_3_absorbs: "f64_round (3 + 1 / 2 ^ 70) = 3"
proof -
  have "f64_round (3 + 1 / 2 ^ 70) =
      2 powr (of_int 1 - 52) * of_int (round_half_even ((3 + 1 / 2 ^ 70) / 2 powr (of_int 1 - 52)))"
    by (intro f64_round_normal) simp_all
  moreover have "round_half_even ((3 + 1 / 2 ^ 70) / 2 powr (of_int 1 - 52)) = 3 * 2 ^ 51"
    by (intro round_half_even_near) (simp add: powr_minus field_simps)
  ultimately show ?thesis by (simp add: powr_minus)
qed

lemma absorbed_rows:
  "rectangle_w_angle_f64 3 4 (1 / 2 ^ 70) 5 0 = [[3, 3, 3, 3], [4, 4, 9, 9]]"
proof -
  define w :: real where "w = 1 / 2 ^ 70"
  have "f64_round w = w"
    unfolding w_def by (rule f64_round_inverse_power) simp
  moreover have "f64_round (3 + w) = 3"
    unfolding w_def by (rule f64_round_3_absorbs)
  ultimately have "rectangle_w_angle_f64 3 4 w 5 0 = [[3, 3, 3, 3], [4, 4, 9, 9]]"
    by (simp add: rectangle_w_angle_f64_rows zero_angle_f64 f64_add_def f64_mul_def
        f64_round_3 f64_round_4 f64_round_5 f64_round_9)
  then show ?thesis unfolding w_def .
qed

text \<open>
  C6, as stated, fails on doubles. At the origin \<open>(3, 4)\<close> with width \<open>2\<^sup>-\<^sup>7\<^sup>0\<close>, height 5
  and angle 0 the sum \<open>3 + 2\<^sup>-\<^sup>7\<^sup>0\<close> rounds to 3, so the returned corners are \<open>(3, 4)\<close>,
  \<open>(3, 4)\<close>, \<open>(3, 9)\<close>, \<open>(3, 9)\<close>: the area is zero although neither the width nor the
  height is.
\<close>

theorem absorbed_width_degenerate:
  "\<not> (quad_area (rectangle_w_angle_f64 3 4 (1 / 2 ^ 70) 5 0) = 0
        \<longleftrightarrow> (1 / 2 ^ 70 :: real) = 0 \<or> (5 :: real) = 0)"
  unfolding absorbed_rows by (simp add: quad_area_def corner_rows cross_def)

lemma degenerate_f64:
  assumes "f64_round x = x" "f64_round y = y" "w = 0 \<or> h = 0"
  shows "quad_area (rectangle_w_angle_f64 x y w h a) = 0"
  using assms(3)
proof
  assume "w = 0"
  then show ?thesis
    by (simp add: rectangle_w_angle_f64_rows Let_def assms(1,2) quad_area_def corner_rows
        cross_def)
next
  assume "h = 0"
  then show ?thesis
    by (simp add: rectangle_w_angle_f64_rows Let_def assms(1,2) quad_area_def corner_rows
        cross_def)
qed

text \<open>
  C6, amended. If the width or the height is zero, the returned rectangle has zero area,
  on doubles as well as in exact arithmetic (the origin being a pair of doubles). The
  converse, that a rectangle of zero area has zero width or zero height, holds in exact
  arithmetic.
\<close>

theorem degenerate_if_zero_dimension:
  "(f64_round x = x \<and> f64_round y = y \<and> (w = 0 \<or> h = 0)
      \<longrightarrow> quad_area (rectangle_w_angle_f64 x y w h a) = 0) \<and>
   (quad_area (rectangle_w_angle x y w h a) = 0 \<longleftrightarrow> w = 0 \<or> h = 0)"
  by (simp add: degenerate_f64 quad_area_rectangle)

theorem degenerate_if_zero_dimension_witness:
  "f64_round 3 = 3 \<and> f64_round 4 = 4 \<and> ((0::real) = 0 \<or> (5::real) = 0) \<and>
   quad_area (rectangle_w_angle_f64 3 4 0 5 30) = 0 \<and>
   quad_area (rectangle_w_angle 3 4 0 5 30) = 0"
  using degenerate_if_zero_dimension [of 3 4 0 5 30]
  by (simp add: f64_round_3 f64_round_4)

subsection \<open>A small angle\<close>

text \<open>The factor of \<^verbatim>\<open>np.deg2rad\<close> and a small angle, located between powers of two.\<close>

lemma np_pi_range: "2 \<le> np_pi \<and> np_pi \<le> 4"
  using f64_round_range [of 1 pi 2] pi_ge_two pi_less_4 by (simp add: np_pi_def)

lemma deg2rad_factor_range: "1 / 2 ^ 7 \<le> f64_div np_pi 180 \<and> f64_div np_pi 180 \<le> 1 / 2 ^ 5"
proof -
  have "2 powr of_int (- 7) \<le> np_pi / 180" "np_pi / 180 < 2 powr of_int (- 5)"
    using np_pi_range by (simp_all add: powr_minus)
  then have "2 powr of_int (- 7) \<le> f64_round (np_pi / 180) \<and>
      f64_round (np_pi / 180) \<le> 2 powr of_int (- 5)"
    by (intro f64_round_range) simp_all
  then show ?thesis by (simp add: f64_div_def powr_minus)
qed

lemma small_theta_range:
  "2 powr (- 47) \<le> np_deg2rad (1 / 2 ^ 40) \<and> np_deg2rad (1 / 2 ^ 40) \<le> 2 powr (- 44)"
proof -
  let ?K = "f64_div np_pi 180"
  have "2 powr of_int (- 47) \<le> 1 / 2 ^ 40 * ?K" "1 / 2 ^ 40 * ?K < 2 powr of_int (- 44)"
    using deg2rad_factor_range by (simp_all add: powr_minus)
  then have "2 powr of_int (- 47) \<le> f64_round (1 / 2 ^ 40 * ?K) \<and>
      f64_round (1 / 2 ^ 40 * ?K) \<le> 2 powr of_int (- 44)"
    by (intro f64_round_range) simp_all
  then show ?thesis by (simp add: np_deg2rad_def f64_mul_def)
qed

lemma cos_lower: "1 - t\<^sup>2 / 2 \<le> cos t" for t :: real
proof -
  have "\<bar>sin (t / 2)\<bar> \<le> \<bar>t / 2\<bar>" by (rule abs_sin_x_le_abs_x)
  then have "(sin (t / 2))\<^sup>2 \<le> (t / 2)\<^sup>2"
    by (simp only: abs_le_square_iff)
  moreover have "cos t = 1 - 2 * (sin (t / 2))\<^sup>2"
    using cos_double_sin [of "t / 2"] by simp
  ultimately show ?thesis by (simp add: power2_eq_square)
qed

lemma sin_lower:
  fixes t :: real
  assumes "0 \<le> t" "t \<le> 1"
  shows "t / 2 \<le> sin t"
proof -
  have "\<bar>sin t - (\<Sum>m<3. sin_coeff m * t ^ m)\<bar> \<le> inverse (fact 3) * \<bar>t\<bar> ^ 3"
    by (rule Maclaurin_sin_bound)
  moreover have "(\<Sum>m<3. sin_coeff m * t ^ m) = t"
    by (simp add: sin_coeff_def eval_nat_numeral)
  ultimately have "\<bar>sin t - t\<bar> \<le> t ^ 3 / 6"
    using assms by (simp add: eval_nat_numeral)
  moreover have "t ^ 3 \<le> t"
    using assms by (simp add: eval_nat_numeral mult_le_one mult_left_le)
  ultimately show ?thesis by linarith
qed

lemma small_angle_cos_sin:
  assumes "2 powr (- 47) \<le> t" "t \<le> 2 powr (- 44)"
  shows "np_cos t = 1" and "2 powr (- 48) \<le> np_sin t \<and> np_sin t \<le> 2 powr (- 43)"
proof -
  have "0 < t" using assms(1) by (rule pos_if_ge_powr)
  moreover have "t \<le> 1 / 2 ^ 44" "1 / 2 ^ 47 \<le> t"
    using assms by (simp_all add: powr_minus)
  ultimately have t: "0 < t" "t \<le> 1 / 2 ^ 44" "1 / 2 ^ 47 \<le> t" by simp_all
  have "t\<^sup>2 \<le> (1 / 2 ^ 44)\<^sup>2"
    using t by (intro power_mono) simp_all
  also have "\<dots> = 1 / 2 ^ 88" by (simp add: power_divide)
  finally have sq: "t\<^sup>2 \<le> 1 / 2 ^ 88" .
  have "(1::real) / 2 ^ 88 < 1 / 2 ^ 54" by simp
  with sq cos_lower [of t] cos_le_one [of t] have "\<bar>cos t - 1\<bar> < 1 / 2 ^ 54"
    by (simp only: abs_less_iff) linarith
  then have "f64_round (1 + (cos t - 1)) = 1" by (rule f64_round_one_plus)
  then show "np_cos t = 1" by (simp add: np_cos_def)
  have "sin t \<le> t" using t by (simp add: sin_x_le_x)
  moreover have "t / 2 \<le> sin t" using t by (intro sin_lower) simp_all
  ultimately have "2 powr of_int (- 48) \<le> sin t" "sin t < 2 powr of_int (- 43)"
    using t by (simp_all add: powr_minus)
  then have "2 powr of_int (- 48) \<le> f64_round (sin t) \<and> f64_round (sin t) \<le> 2 powr of_int (- 43)"
    by (intro f64_round_range) simp_all
  then show "2 powr (- 48) \<le> np_sin t \<and> np_sin t \<le> 2 powr (- 43)"
    by (simp add: np_sin_def)
qed

text \<open>
  The rectangle of width 1, height \<open>2\<^sup>-\<^sup>2\<^sup>0\<close> and angle \<open>2\<^sup>-\<^sup>4\<^sup>0\<close> degrees at the origin
  \<open>(x, 0)\<close>, for \<open>x = 0\<close> and \<open>x = 1\<close>: the cosine rounds to 1, the sine \<open>s\<close> is tiny and
  positive, and the offset \<open>- q\<close> of the height along \<open>x\<close> is absorbed next to 1.
\<close>

lemma small_angle_corners:
  fixes x :: real
  assumes x: "x = 0 \<or> x = 1"
  defines "R \<equiv> rectangle_w_angle_f64 x 0 1 (1 / 2 ^ 20) (1 / 2 ^ 40)"
  shows "\<exists>s q. 0 < s \<and> 0 < q \<and>
           corner R 0 = (x, 0) \<and> corner R 1 = (x + 1, s) \<and>
           (x = 0 \<longrightarrow> fst (corner R 2) = 1) \<and>
           corner R 3 = (x - (1 - x) * q, 1 / 2 ^ 20)"
proof -
  define h0 :: real where "h0 = 1 / 2 ^ 20"
  define a0 :: real where "a0 = 1 / 2 ^ 40"
  define s where "s = np_sin (np_deg2rad a0)"
  define q where "q = f64_round (h0 * s)"
  have th: "2 powr (- 47) \<le> np_deg2rad a0" "np_deg2rad a0 \<le> 2 powr (- 44)"
    using small_theta_range by (simp_all add: a0_def)
  have c: "np_cos (np_deg2rad a0) = 1"
    using th by (rule small_angle_cos_sin(1))
  have sr: "2 powr (- 48) \<le> s" "s \<le> 2 powr (- 43)"
    using small_angle_cos_sin(2) [OF th] by (simp_all add: s_def)
  have spos: "0 < s" using sr(1) by (rule pos_if_ge_powr)
  have s_fix: "f64_round s = s" by (simp add: s_def np_sin_def)
  have h_fix: "f64_round h0 = h0"
    unfolding h0_def by (rule f64_round_inverse_power) simp
  have "2 powr of_int (- 68) \<le> h0 * s" "h0 * s < 2 powr of_int (- 62)"
    using sr by (simp_all add: h0_def powr_minus field_simps)
  then have qr: "2 powr of_int (- 68) \<le> q \<and> q \<le> 2 powr of_int (- 62)"
    unfolding q_def by (intro f64_round_range) simp_all
  then have qpos: "0 < q" using pos_if_ge_powr by blast
  have q_fix: "f64_round q = q" by (simp add: q_def)
  have q_small: "\<bar>- q\<bar> < 1 / 2 ^ 54"
    using qr qpos by (simp add: powr_minus)
  have q_abs: "f64_round (1 + - q) = 1"
    using q_small by (rule f64_round_one_plus)
  have mul: "f64_mul 1 1 = 1" "f64_mul 1 s = s" "f64_mul h0 (- s) = - q" "f64_mul h0 1 = h0"
    by (simp_all add: f64_mul_def s_fix h_fix q_def f64_round_uminus)
  have add0: "f64_add 0 1 = 1" "f64_add 1 1 = 2" "f64_add 0 s = s" "f64_add 0 h0 = h0"
    "f64_add 0 (- q) = - q" "f64_add 1 (- q) = 1"
    using q_abs by (simp_all add: f64_add_def s_fix h_fix q_fix f64_round_2 f64_round_uminus)
  have R: "R = [[x, f64_add x 1, f64_add (f64_add x 1) (- q), f64_add x (- q)],
                [0, s, f64_add s h0, h0]]"
    unfolding R_def h0_def [symmetric] a0_def [symmetric]
    by (simp add: rectangle_w_angle_f64_rows Let_def c s_def [symmetric] mul add0)
  from x have "corner R 0 = (x, 0) \<and> corner R 1 = (x + 1, s) \<and>
           (x = 0 \<longrightarrow> fst (corner R 2) = 1) \<and>
           corner R 3 = (x - (1 - x) * q, h0)"
    by (auto simp: R corner_rows add0)
  with spos qpos show ?thesis unfolding h0_def by blast
qed

text \<open>
  C5, as stated, fails on doubles. At the origin \<open>(1, 0)\<close> with width 1, height \<open>2\<^sup>-\<^sup>2\<^sup>0\<close>
  and angle \<open>2\<^sup>-\<^sup>4\<^sup>0\<close> degrees the returned edges are \<open>v2 - v1 = (1, s)\<close> and
  \<open>v4 - v1 = (0, 2\<^sup>-\<^sup>2\<^sup>0)\<close> with \<open>s > 0\<close>: their dot product is not zero.
\<close>

theorem rounded_edges_not_perpendicular:
  "dot (vsub (corner (rectangle_w_angle_f64 1 0 1 (1 / 2 ^ 20) (1 / 2 ^ 40)) 1)
             (corner (rectangle_w_angle_f64 1 0 1 (1 / 2 ^ 20) (1 / 2 ^ 40)) 0))
       (vsub (corner (rectangle_w_angle_f64 1 0 1 (1 / 2 ^ 20) (1 / 2 ^ 40)) 3)
             (corner (rectangle_w_angle_f64 1 0 1 (1 / 2 ^ 20) (1 / 2 ^ 40)) 0)) \<noteq> 0"
proof -
  obtain s q :: real where "0 < s"
    and "corner (rectangle_w_angle_f64 1 0 1 (1 / 2 ^ 20) (1 / 2 ^ 40)) 0 = (1, 0)"
    and "corner (rectangle_w_angle_f64 1 0 1 (1 / 2 ^ 20) (1 / 2 ^ 40)) 1 = (1 + 1, s)"
    and "corner (rectangle_w_angle_f64 1 0 1 (1 / 2 ^ 20) (1 / 2 ^ 40)) 3 =
           (1 - (1 - 1) * q, 1 / 2 ^ 20)"
    using small_angle_corners [of 1] by auto
  then show ?thesis by (simp add: dot_def vsub_def)
qed

text \<open>
  C5, amended. In exact arithmetic, for all inputs, the edges \<open>v2 - v1\<close> and \<open>v4 - v1\<close> of
  the returned corners have dot product zero; the first is \<open>w\<close> times the unit vector at the
  angle \<open>a\<close>, the second \<open>h\<close> times the unit vector at \<open>a + 90\<close> degrees, a quarter turn
  counterclockwise from it. On doubles the two directions are \<open>(c, s)\<close> and \<open>(- s, c)\<close> for
  the same two doubles \<open>c\<close> and \<open>s\<close>, so they are exactly perpendicular, and these are the
  edges returned for the unit square at the origin, for every angle; what is lost in
  general is lost in rounding the products with \<open>w\<close> and \<open>h\<close> and the sums with the origin.
\<close>

theorem right_angle_up_to_rounding:
  "let R = rectangle_w_angle x y w h a; F = rectangle_w_angle_f64 0 0 1 1 a in
     dot (vsub (corner R 1) (corner R 0)) (vsub (corner R 3) (corner R 0)) = 0 \<and>
     vsub (corner R 1) (corner R 0) = (w * cos (deg2rad a), w * sin (deg2rad a)) \<and>
     vsub (corner R 3) (corner R 0) = (h * cos (deg2rad (a + 90)), h * sin (deg2rad (a + 90))) \<and>
     corner F 1 = (np_cos (np_deg2rad a), np_sin (np_deg2rad a)) \<and>
     corner F 3 = (- np_sin (np_deg2rad a), np_cos (np_deg2rad a)) \<and>
     dot (vsub (corner F 1) (corner F 0)) (vsub (corner F 3) (corner F 0)) = 0"
  by (simp add: rectangle_w_angle_rows rectangle_w_angle_f64_rows corner_rows dot_def vsub_def
      Let_def quarter_turn f64_add_def f64_mul_def np_cos_def np_sin_def f64_round_uminus)

theorem right_angle_up_to_rounding_witness:
  "let R = rectangle_w_angle 3 4 10 5 30; F = rectangle_w_angle_f64 0 0 1 1 30 in
     dot (vsub (corner R 1) (corner R 0)) (vsub (corner R 3) (corner R 0)) = 0 \<and>
     vsub (corner R 1) (corner R 0) = (10 * cos (deg2rad 30), 10 * sin (deg2rad 30)) \<and>
     vsub (corner R 3) (corner R 0) = (5 * cos (deg2rad (30 + 90)), 5 * sin (deg2rad (30 + 90))) \<and>
     corner F 1 = (np_cos (np_deg2rad 30), np_sin (np_deg2rad 30)) \<and>
     corner F 3 = (- np_sin (np_deg2rad 30), np_cos (np_deg2rad 30)) \<and>
     dot (vsub (corner F 1) (corner F 0)) (vsub (corner F 3) (corner F 0)) = 0"
  by (rule right_angle_up_to_rounding)

text \<open>
  C9, as stated, fails on doubles. At the origin \<open>(0, 0)\<close> with width 1, height \<open>2\<^sup>-\<^sup>2\<^sup>0\<close>
  and angle \<open>2\<^sup>-\<^sup>4\<^sup>0\<close> degrees the first coordinates of the corners are \<open>0\<close>, \<open>1\<close>, \<open>1\<close> and
  \<open>- q\<close> with \<open>q > 0\<close>: the offset \<open>- q\<close> is kept next to 0 and absorbed next to 1, so
  \<open>v1 + v3\<close> and \<open>v2 + v4\<close> differ.
\<close>

theorem rounded_corners_not_parallelogram:
  "vadd (corner (rectangle_w_angle_f64 0 0 1 (1 / 2 ^ 20) (1 / 2 ^ 40)) 0)
        (corner (rectangle_w_angle_f64 0 0 1 (1 / 2 ^ 20) (1 / 2 ^ 40)) 2)
   \<noteq> vadd (corner (rectangle_w_angle_f64 0 0 1 (1 / 2 ^ 20) (1 / 2 ^ 40)) 1)
          (corner (rectangle_w_angle_f64 0 0 1 (1 / 2 ^ 20) (1 / 2 ^ 40)) 3)"
proof -
  obtain s q :: real where "0 < q"
    and "corner (rectangle_w_angle_f64 0 0 1 (1 / 2 ^ 20) (1 / 2 ^ 40)) 0 = (0, 0)"
    and "corner (rectangle_w_angle_f64 0 0 1 (1 / 2 ^ 20) (1 / 2 ^ 40)) 1 = (0 + 1, s)"
    and "fst (corner (rectangle_w_angle_f64 0 0 1 (1 / 2 ^ 20) (1 / 2 ^ 40)) 2) = 1"
    and "corner (rectangle_w_angle_f64 0 0 1 (1 / 2 ^ 20) (1 / 2 ^ 40)) 3 =
           (0 - (1 - 0) * q, 1 / 2 ^ 20)"
    using small_angle_corners [of 0] by auto
  then show ?thesis by (simp add: vadd_def)
qed

text \<open>
  Both \<open>v3\<close> and \<open>v4\<close> are one rounded sum of a corner and the same offset \<open>p\<close>; the
  defect of the parallelogram identity is the difference of the two rounding errors.
\<close>

lemma parallelogram_defect:
  "\<bar>a + f64_add b p - (b + f64_add a p)\<bar>
     \<le> (\<bar>f64_add b p\<bar> + \<bar>f64_add a p\<bar>) / 2 ^ 53 + 2 powr (- 1074)"
proof -
  have "a + f64_add b p - (b + f64_add a p)
      = (f64_round (b + p) - (b + p)) - (f64_round (a + p) - (a + p))"
    by (simp add: f64_add_def)
  moreover have "(2::real) powr (- 1074) = 2 powr (- 1075) + 2 powr (- 1075)"
    using half_powr [of "- 1074"] by simp
  ultimately show ?thesis
    using f64_round_rel_error [of "b + p"] f64_round_rel_error [of "a + p"]
    by (simp add: f64_add_def add_divide_distrib)
qed

text \<open>
  C9, amended. For every input, of any sign, \<^const>\<open>rectangle_w_angle\<close> returns a full
  \<open>2 \<times> 4\<close> array: it has no precondition and no failing branch. In exact arithmetic the
  corners satisfy \<open>v1 + v3 = v2 + v4\<close>, that is \<open>v3 - v2 = v4 - v1\<close>. On doubles the identity
  holds up to the two roundings that produce \<open>v3\<close> and \<open>v4\<close>: in each coordinate
  \<open>v1 + v3\<close> and \<open>v2 + v4\<close> differ by at most \<open>(|v3| + |v4|) 2\<^sup>-\<^sup>5\<^sup>3 + 2\<^sup>-\<^sup>1\<^sup>0\<^sup>7\<^sup>4\<close>.
\<close>

theorem parallelogram_up_to_rounding:
  "let R = rectangle_w_angle x y w h a; F = rectangle_w_angle_f64 x y w h a in
     vadd (corner R 0) (corner R 2) = vadd (corner R 1) (corner R 3) \<and>
     vsub (corner R 2) (corner R 1) = vsub (corner R 3) (corner R 0) \<and>
     map length R = [4, 4] \<and> map length F = [4, 4] \<and>
     \<bar>fst (corner F 0) + fst (corner F 2) - (fst (corner F 1) + fst (corner F 3))\<bar>
       \<le> (\<bar>fst (corner F 2)\<bar> + \<bar>fst (corner F 3)\<bar>) / 2 ^ 53 + 2 powr (- 1074) \<and>
     \<bar>snd (corner F 0) + snd (corner F 2) - (snd (corner F 1) + snd (corner F 3))\<bar>
       \<le> (\<bar>snd (corner F 2)\<bar> + \<bar>snd (corner F 3)\<bar>) / 2 ^ 53 + 2 powr (- 1074)"
  using parallelogram_defect
  by (simp add: rectangle_w_angle_rows rectangle_w_angle_f64_rows corner_rows vadd_def vsub_def
      Let_def)

theorem parallelogram_up_to_rounding_witness:
  "let R = rectangle_w_angle 3 4 (- 10) (- 5) 450; F = rectangle_w_angle_f64 3 4 (- 10) (- 5) 450 in
     vadd (corner R 0) (corner R 2) = vadd (corner R 1) (corner R 3) \<and>
     vsub (corner R 2) (corner R 1) = vsub (corner R 3) (corner R 0) \<and>
     map length R = [4, 4] \<and> map length F = [4, 4] \<and>
     \<bar>fst (corner F 0) + fst (corner F 2) - (fst (corner F 1) + fst (corner F 3))\<bar>
       \<le> (\<bar>fst (corner F 2)\<bar> + \<bar>fst (corner F 3)\<bar>) / 2 ^ 53 + 2 powr (- 1074) \<and>
     \<bar>snd (corner F 0) + snd (corner F 2) - (snd (corner F 1) + snd (corner F 3))\<bar>
       \<le> (\<bar>snd (corner F 2)\<bar> + \<bar>snd (corner F 3)\<bar>) / 2 ^ 53 + 2 powr (- 1074)"
  by (rule parallelogram_up_to_rounding)

section \<open>The vertical scenario in binary64\<close>

text \<open>
  Partial sums of the series of \<open>arctan\<close> enclose it; with Machin's formula they give
  \<open>pi\<close> to seventeen digits, enough to know the doubles nearest to \<open>pi\<close> and \<open>pi / 2\<close>.
\<close>

lemma arctan_partial_sums:
  fixes x :: real
  assumes "0 \<le> x" "x \<le> 1"
  shows "(\<Sum>k<2 * n. (- 1) ^ k * (1 / real (k * 2 + 1) * x ^ (k * 2 + 1))) \<le> arctan x"
    and "arctan x \<le> (\<Sum>k<2 * n + 1. (- 1) ^ k * (1 / real (k * 2 + 1) * x ^ (k * 2 + 1)))"
proof -
  let ?a = "\<lambda>k. 1 / real (k * 2 + 1) * x ^ (k * 2 + 1)"
  have ax: "\<bar>x\<bar> \<le> 1" using assms by simp
  have zero: "?a \<longlonglongrightarrow> 0" using ax by (rule zeroseq_arctan_series)
  have pos: "0 \<le> ?a k" for k using assms by simp
  have mono: "?a (Suc k) \<le> ?a k" for k
  proof -
    have "x ^ (Suc k * 2 + 1) \<le> x ^ (k * 2 + 1)"
      using assms by (intro power_decreasing) simp_all
    moreover have "1 / real (Suc k * 2 + 1) \<le> 1 / real (k * 2 + 1)"
      by (intro divide_left_mono) simp_all
    ultimately show ?thesis
      using assms by (intro mult_mono) simp_all
  qed
  have s: "arctan x = (\<Sum>k. (- 1) ^ k * ?a k)"
    using ax by (rule arctan_series)
  show "(\<Sum>k<2 * n. (- 1) ^ k * ?a k) \<le> arctan x"
    unfolding s by (rule summable_Leibniz'(2) [OF zero pos mono])
  show "arctan x \<le> (\<Sum>k<2 * n + 1. (- 1) ^ k * ?a k)"
    unfolding s by (rule summable_Leibniz'(4) [OF zero pos mono])
qed

lemma pi_17_digits: "31415926535897932 / 10 ^ 16 < pi" "pi < 31415926535897933 / 10 ^ 16"
proof -
  have p: "pi = 16 * arctan (1 / 5) - 4 * arctan (1 / 239)"
    using machin by simp
  have l5: "(\<Sum>k<2 * 6. (- 1) ^ k * (1 / real (k * 2 + 1) * (1 / 5) ^ (k * 2 + 1))) \<le> arctan (1 / 5)"
    by (rule arctan_partial_sums) simp_all
  have u5: "arctan (1 / 5) \<le> (\<Sum>k<2 * 6 + 1. (- 1) ^ k * (1 / real (k * 2 + 1) * (1 / 5) ^ (k * 2 + 1)))"
    by (rule arctan_partial_sums) simp_all
  have l239: "(\<Sum>k<2 * 2. (- 1) ^ k * (1 / real (k * 2 + 1) * (1 / 239) ^ (k * 2 + 1))) \<le> arctan (1 / 239)"
    by (rule arctan_partial_sums) simp_all
  have u239: "arctan (1 / 239) \<le> (\<Sum>k<2 * 2 + 1. (- 1) ^ k * (1 / real (k * 2 + 1) * (1 / 239) ^ (k * 2 + 1)))"
    by (rule arctan_partial_sums) simp_all
  show "31415926535897932 / 10 ^ 16 < pi"
    using l5 u239 unfolding p by (simp add: eval_nat_numeral)
  show "pi < 31415926535897933 / 10 ^ 16"
    using u5 l239 unfolding p by (simp add: eval_nat_numeral)
qed


text \<open>The doubles of the computation of the angle.\<close>

lemma f64_round_half_pi: "f64_round (pi / 2) = np_half_pi"
proof -
  have "f64_round (pi / 2) =
      2 powr (of_int 0 - 52) * of_int (round_half_even (pi / 2 / 2 powr (of_int 0 - 52)))"
    using pi_ge_two pi_less_4 by (intro f64_round_normal) simp_all
  moreover have "round_half_even (pi / 2 / 2 powr (of_int 0 - 52)) = 7074237752028440"
    using pi_17_digits by (intro round_half_even_near) (simp add: powr_minus field_simps)
  ultimately show ?thesis by (simp add: powr_minus np_half_pi_def)
qed

lemma np_pi_value: "np_pi = 2 * np_half_pi"
proof -
  have "f64_round pi =
      2 powr (of_int 1 - 52) * of_int (round_half_even (pi / 2 powr (of_int 1 - 52)))"
    using pi_ge_two pi_less_4 by (intro f64_round_normal) simp_all
  moreover have "round_half_even (pi / 2 powr (of_int 1 - 52)) = 7074237752028440"
    using pi_17_digits by (intro round_half_even_near) (simp add: powr_minus field_simps)
  ultimately show ?thesis by (simp add: powr_minus np_half_pi_def np_pi_def)
qed

lemma np_arctan2_vertical: "np_arctan2 10 0 = np_half_pi"
  by (simp add: np_arctan2_def arctan2_def f64_round_half_pi)

lemma angle_vertical: "f64_div (f64_mul np_half_pi 180) np_pi = 90"
proof -
  have "f64_round (np_half_pi * 180) =
      2 powr (of_int 8 - 52) * of_int (round_half_even (np_half_pi * 180 / 2 powr (of_int 8 - 52)))"
    by (intro f64_round_normal) (simp_all add: np_half_pi_def)
  moreover have "round_half_even (np_half_pi * 180 / 2 powr (of_int 8 - 52)) = 4974073419394997"
    by (intro round_half_even_near) (simp add: powr_minus field_simps np_half_pi_def)
  ultimately have B: "f64_mul np_half_pi 180 = 4974073419394997 / 2 ^ 44"
    by (simp add: powr_minus f64_mul_def)
  let ?q = "4974073419394997 / 2 ^ 44 / (2 * np_half_pi)"
  have "f64_round ?q =
      2 powr (of_int 6 - 52) * of_int (round_half_even (?q / 2 powr (of_int 6 - 52)))"
    by (intro f64_round_normal) (simp_all add: np_half_pi_def)
  moreover have "round_half_even (?q / 2 powr (of_int 6 - 52)) = 90 * 2 ^ 46"
    by (intro round_half_even_near) (simp add: powr_minus field_simps np_half_pi_def)
  ultimately have "f64_round ?q = 90"
    by (simp add: powr_minus)
  then show ?thesis
    by (simp add: f64_div_def B np_pi_value)
qed

lemma deg2rad_90: "np_deg2rad 90 = np_half_pi"
proof -
  let ?k = "2 * np_half_pi / 180"
  have "f64_round ?k =
      2 powr (of_int (- 6) - 52) * of_int (round_half_even (?k / 2 powr (of_int (- 6) - 52)))"
    by (intro f64_round_normal) (simp_all add: np_half_pi_def powr_minus)
  moreover have "round_half_even (?k / 2 powr (of_int (- 6) - 52)) = 5030569068109113"
    by (intro round_half_even_near) (simp add: powr_minus field_simps np_half_pi_def)
  ultimately have K: "f64_div np_pi 180 = 5030569068109113 / 2 ^ 58"
    by (simp add: powr_minus f64_div_def np_pi_value)
  let ?t = "90 * (5030569068109113 / 2 ^ 58) :: real"
  have "f64_round ?t =
      2 powr (of_int 0 - 52) * of_int (round_half_even (?t / 2 powr (of_int 0 - 52)))"
    by (intro f64_round_normal) simp_all
  moreover have "round_half_even (?t / 2 powr (of_int 0 - 52)) = 7074237752028440"
    by (intro round_half_even_near) (simp add: powr_minus field_simps)
  ultimately have "f64_round ?t = np_half_pi"
    by (simp add: powr_minus np_half_pi_def)
  then show ?thesis
    by (simp add: np_deg2rad_def f64_mul_def K)
qed


text \<open>
  The double nearest to \<open>pi / 2\<close> lies below it, by between \<open>2\<^sup>-\<^sup>5\<^sup>5\<close> and \<open>2\<^sup>-\<^sup>5\<^sup>3\<close>: its cosine
  is small and positive, not zero, and its sine rounds to 1.
\<close>

lemma cos_sin_half_pi:
  "2 powr (- 56) \<le> np_cos np_half_pi \<and> np_cos np_half_pi \<le> 2 powr (- 53)"
  "np_sin np_half_pi = 1"
proof -
  define d where "d = pi / 2 - np_half_pi"
  have d: "1 / 2 ^ 55 \<le> d" "d < 1 / 2 ^ 53"
    using pi_17_digits by (simp_all add: d_def np_half_pi_def field_simps)
  then have d0: "0 \<le> d" "d \<le> 1"
    by simp_all
  have c: "cos np_half_pi = sin d" and s: "sin np_half_pi = cos d"
    using sin_cos_eq [of d] cos_sin_eq [of d] by (simp_all add: d_def)
  have "d / 2 \<le> sin d" using d0 by (rule sin_lower)
  moreover have "sin d \<le> d" using d0 by (simp add: sin_x_le_x)
  ultimately have "2 powr of_int (- 56) \<le> sin d" "sin d < 2 powr of_int (- 53)"
    using d by (simp_all add: powr_minus)
  then have "2 powr of_int (- 56) \<le> f64_round (sin d) \<and> f64_round (sin d) \<le> 2 powr of_int (- 53)"
    by (intro f64_round_range) simp_all
  then show "2 powr (- 56) \<le> np_cos np_half_pi \<and> np_cos np_half_pi \<le> 2 powr (- 53)"
    by (simp add: np_cos_def c)
  have "d\<^sup>2 \<le> (1 / 2 ^ 53)\<^sup>2"
    using d d0 by (intro power_mono) simp_all
  also have "\<dots> = 1 / 2 ^ 106" by (simp add: power_divide)
  finally have sq: "d\<^sup>2 \<le> 1 / 2 ^ 106" .
  have "(1::real) / 2 ^ 106 < 1 / 2 ^ 54" by simp
  with sq cos_lower [of d] cos_le_one [of d] have "\<bar>cos d - 1\<bar> < 1 / 2 ^ 54"
    by (simp only: abs_less_iff) linarith
  then have "f64_round (1 + (cos d - 1)) = 1" by (rule f64_round_one_plus)
  then show "np_sin np_half_pi = 1" by (simp add: np_sin_def s)
qed

lemma round_half_even_tie:
  assumes "even k"
  shows "round_half_even (of_int k + 1 / 2) = k"
proof -
  have "\<lfloor>of_int k + 1 / 2 :: real\<rfloor> = k" by linarith
  then show ?thesis using assms by (simp add: round_half_even_def)
qed

lemma f64_round_10: "f64_round 10 = 10"
  by (rule f64_round_normal_grid [of 3 _ "10 * 2 ^ 49"]) (simp_all add: powr_minus)

lemma f64_round_25: "f64_round 25 = 25"
  by (rule f64_round_normal_grid [of 4 _ "25 * 2 ^ 48"]) (simp_all add: powr_minus)

lemma f64_round_100: "f64_round 100 = 100"
  by (rule f64_round_normal_grid [of 6 _ "100 * 2 ^ 46"]) (simp_all add: powr_minus)

lemma f64_round_10_absorbs:
  assumes "0 \<le> g" "g \<le> 2 powr (- 50)"
  shows "f64_round (10 + g) = 10"
proof -
  have g: "g \<le> 1 / 2 ^ 50" using assms(2) by (simp add: powr_minus)
  have r: "f64_round (10 + g) =
      2 powr (of_int 3 - 52) * of_int (round_half_even ((10 + g) / 2 powr (of_int 3 - 52)))"
    using assms(1) g by (intro f64_round_normal) simp_all
  have "round_half_even ((10 + g) / 2 powr (of_int 3 - 52)) = 10 * 2 ^ 49"
  proof (cases "g = 1 / 2 ^ 50")
    case True
    have eq: "(10 + g) / 2 powr (of_int 3 - 52) = of_int (10 * 2 ^ 49) + 1 / 2"
      by (simp add: True powr_minus)
    show ?thesis
      unfolding eq by (rule round_half_even_tie) simp
  next
    case False
    then have "g < 1 / 2 ^ 50" using g by simp
    then show ?thesis
      using assms(1) by (intro round_half_even_near) (simp add: powr_minus field_simps)
  qed
  with r show ?thesis by (simp add: powr_minus)
qed


lemma vertical_capture_f64:
  "annotate_image_f64 [(0, 0), (0, 10), (5, 10)] = Inr (Some (rectangle_w_angle_f64 0 0 10 5 90))"
proof -
  have sub: "f64_sub 0 0 = 0" "f64_sub 0 10 = - 10" "f64_sub 10 0 = 10" "f64_sub 5 0 = 5"
    "f64_sub 10 10 = 0"
    by (simp_all add: f64_sub_def f64_round_uminus f64_round_10 f64_round_5)
  have w: "f64_sqrt (f64_add 0 (f64_mul (- 10) (- 10))) = 10"
    by (simp add: f64_sqrt_def f64_add_def f64_mul_def f64_round_100 sqrt_100 f64_round_10)
  have h: "f64_sqrt (f64_round (f64_mul 5 5)) = 5"
    by (simp add: f64_sqrt_def f64_add_def f64_mul_def f64_round_25 sqrt_25 f64_round_5)
  have a: "f64_div (f64_mul (np_arctan2 10 0) 180) np_pi = 90"
    by (simp only: np_arctan2_vertical angle_vertical)
  show ?thesis
    by (simp add: annotate_image_f64_def sub w h a)
qed

lemma vertical_rows_f64:
  "\<exists>e1 e3 g. rectangle_w_angle_f64 0 0 10 5 90 = [[0, e1, e3, - 5], [0, 10, 10, g]] \<and>
     2 powr (- 53) \<le> e1 \<and> e1 \<le> 2 powr (- 49) \<and> \<bar>e3 + 5\<bar> \<le> 2 powr (- 48) \<and>
     2 powr (- 54) \<le> g \<and> g \<le> 2 powr (- 50)"
proof -
  define c where "c = np_cos np_half_pi"
  define e1 where "e1 = f64_round (10 * c)"
  define g where "g = f64_round (5 * c)"
  define e3 where "e3 = f64_round (e1 + - 5)"
  have c: "1 / 2 ^ 56 \<le> c" "c \<le> 1 / 2 ^ 53"
    using cos_sin_half_pi(1) by (simp_all add: c_def powr_minus)
  have "2 powr of_int (- 53) \<le> 10 * c" "10 * c < 2 powr of_int (- 49)"
    using c by (simp_all add: powr_minus)
  then have "2 powr of_int (- 53) \<le> e1 \<and> e1 \<le> 2 powr of_int (- 49)"
    unfolding e1_def by (intro f64_round_range) simp_all
  then have e1: "2 powr (- 53) \<le> e1" "e1 \<le> 2 powr (- 49)" by simp_all
  have "2 powr of_int (- 54) \<le> 5 * c" "5 * c < 2 powr of_int (- 50)"
    using c by (simp_all add: powr_minus)
  then have "2 powr of_int (- 54) \<le> g \<and> g \<le> 2 powr of_int (- 50)"
    unfolding g_def by (intro f64_round_range) simp_all
  then have g: "2 powr (- 54) \<le> g" "g \<le> 2 powr (- 50)" by simp_all
  have gpos: "0 \<le> g" using pos_if_ge_powr [OF g(1)] by simp
  have e1n: "0 < e1" "e1 \<le> 1 / 2 ^ 49"
    using pos_if_ge_powr [OF e1(1)] e1(2) by (simp_all add: powr_minus)
  have "f64_exponent (e1 + - 5) = 2"
    using e1n by (intro f64_exponent_eq) simp_all
  then have "f64_ulp (e1 + - 5) = 1 / 2 ^ 50"
    by (simp add: f64_ulp_def powr_minus)
  then have "\<bar>e3 - (e1 + - 5)\<bar> \<le> 1 / 2 ^ 50 / 2"
    using f64_round_error [of "e1 + - 5"] by (simp add: e3_def)
  then have "\<bar>e3 + 5\<bar> \<le> 1 / 2 ^ 50 / 2 + 1 / 2 ^ 49"
    using e1n by linarith
  also have "\<dots> \<le> 1 / 2 ^ 48" by simp
  finally have e3: "\<bar>e3 + 5\<bar> \<le> 2 powr (- 48)"
    by (simp add: powr_minus)
  have mul: "f64_mul 10 c = e1" "f64_mul 10 1 = 10" "f64_mul 5 (- 1) = - 5" "f64_mul 5 c = g"
    by (simp_all add: f64_mul_def e1_def g_def f64_round_10 f64_round_5 f64_round_uminus)
  have add: "f64_add 0 e1 = e1" "f64_add 0 10 = 10" "f64_add 0 (- 5) = - 5" "f64_add 0 g = g"
    "f64_add 10 g = 10" "f64_add e1 (- 5) = e3"
    using f64_round_10_absorbs [OF gpos g(2)]
    by (simp_all add: f64_add_def e1_def g_def e3_def f64_round_10 f64_round_5 f64_round_uminus)
  have "rectangle_w_angle_f64 0 0 10 5 90 = [[0, e1, e3, - 5], [0, 10, 10, g]]"
    by (simp add: rectangle_w_angle_f64_rows Let_def deg2rad_90 c_def [symmetric]
        cos_sin_half_pi(2) mul add)
  with e1 e3 g show ?thesis by blast
qed

text \<open>
  C7, as stated, fails on doubles. For the clicks \<open>(0, 0)\<close>, \<open>(0, 10)\<close>, \<open>(5, 10)\<close> the
  capture, computed on doubles, does not return the corners \<open>(0, 0)\<close>, \<open>(0, 10)\<close>,
  \<open>(-5, 10)\<close>, \<open>(-5, 0)\<close>: the first coordinate of \<open>v2\<close> is 10 times the cosine of the double
  nearest to \<open>pi / 2\<close>, which is positive.
\<close>

theorem vertical_scenario_rounded:
  "annotate_image_f64 [(0, 0), (0, 10), (5, 10)] \<noteq> Inr (Some [[0, 0, - 5, - 5], [0, 10, 10, 0]])"
proof -
  obtain e1 e3 g :: real
    where "rectangle_w_angle_f64 0 0 10 5 90 = [[0, e1, e3, - 5], [0, 10, 10, g]]"
      and "2 powr (- 53) \<le> e1"
    using vertical_rows_f64 by blast
  moreover from this have "0 < e1" using pos_if_ge_powr by blast
  ultimately show ?thesis
    by (simp add: vertical_capture_f64)
qed

text \<open>
  C7, amended. For the clicks \<open>(0, 0)\<close>, \<open>(0, 10)\<close>, \<open>(5, 10)\<close> the capture derives the
  angle 90 degrees, width 10 and height 5, in exact arithmetic and on doubles alike. In
  exact arithmetic the corners are \<open>(0, 0)\<close>, \<open>(0, 10)\<close>, \<open>(-5, 10)\<close>, \<open>(-5, 0)\<close> in the order
  \<open>v1, v2, v3, v4\<close>. On doubles they are these up to rounding: \<open>v1 = (0, 0)\<close>,
  \<open>v2 = (e, 10)\<close> with \<open>0 < e \<le> 2\<^sup>-\<^sup>4\<^sup>9\<close>, \<open>v3 = (e', 10)\<close> with \<open>|e' + 5| \<le> 2\<^sup>-\<^sup>4\<^sup>8\<close>, and
  \<open>v4 = (-5, g)\<close> with \<open>0 < g \<le> 2\<^sup>-\<^sup>5\<^sup>0\<close>.
\<close>

theorem vertical_scenario_up_to_rounding:
  "degrees (arctan2 (10 - 0) (0 - 0)) = 90 \<and>
   annotate_image [(0, 0), (0, 10), (5, 10)] = Inr (Some (rectangle_w_angle 0 0 10 5 90)) \<and>
   map (corner (rectangle_w_angle 0 0 10 5 90)) [0, 1, 2, 3] =
     [(0, 0), (0, 10), (- 5, 10), (- 5, 0)] \<and>
   annotate_image_f64 [(0, 0), (0, 10), (5, 10)] = Inr (Some (rectangle_w_angle_f64 0 0 10 5 90)) \<and>
   corner (rectangle_w_angle_f64 0 0 10 5 90) 0 = (0, 0) \<and>
   snd (corner (rectangle_w_angle_f64 0 0 10 5 90) 1) = 10 \<and>
   0 < fst (corner (rectangle_w_angle_f64 0 0 10 5 90) 1) \<and>
   fst (corner (rectangle_w_angle_f64 0 0 10 5 90) 1) \<le> 2 powr (- 49) \<and>
   snd (corner (rectangle_w_angle_f64 0 0 10 5 90) 2) = 10 \<and>
   \<bar>fst (corner (rectangle_w_angle_f64 0 0 10 5 90) 2) + 5\<bar> \<le> 2 powr (- 48) \<and>
   fst (corner (rectangle_w_angle_f64 0 0 10 5 90) 3) = - 5 \<and>
   0 < snd (corner (rectangle_w_angle_f64 0 0 10 5 90) 3) \<and>
   snd (corner (rectangle_w_angle_f64 0 0 10 5 90) 3) \<le> 2 powr (- 50)"
proof -
  obtain e1 e3 g :: real
    where R: "rectangle_w_angle_f64 0 0 10 5 90 = [[0, e1, e3, - 5], [0, 10, 10, g]]"
      and b: "2 powr (- 53) \<le> e1" "e1 \<le> 2 powr (- 49)" "\<bar>e3 + 5\<bar> \<le> 2 powr (- 48)"
        "2 powr (- 54) \<le> g" "g \<le> 2 powr (- 50)"
    using vertical_rows_f64 by blast
  have pos: "0 < e1" "0 < g"
    using b pos_if_ge_powr by blast+
  have exact: "degrees (arctan2 (10 - 0) (0 - 0)) = 90 \<and>
      annotate_image [(0, 0), (0, 10), (5, 10)] = Inr (Some (rectangle_w_angle 0 0 10 5 90)) \<and>
      map (corner (rectangle_w_angle 0 0 10 5 90)) [0, 1, 2, 3] =
        [(0, 0), (0, 10), (- 5, 10), (- 5, 0)]"
    by (rule vertical_scenario)
  show ?thesis
    unfolding R using exact b pos by (simp add: vertical_capture_f64 R corner_rows)
qed

end
